theory Spec2Isabelle
  imports Complex_Main "HOL-Library.Sublist"
begin

section \<open>Strings\<close>

text \<open>
  A Python \<^verbatim>\<open>str\<close> is modelled as a \<^typ>\<open>string\<close>, one \<^typ>\<open>char\<close> per code point
  (code points below 256). \<^verbatim>\<open>str.isspace\<close>, the class \<^verbatim>\<open>\s\<close> of \<^verbatim>\<open>re\<close> and the
  characters removed by \<^verbatim>\<open>str.strip()\<close> coincide: tab, line feed, vertical tab, form
  feed, carriage return, the separators 0x1C to 0x1F, space, 0x85 and 0xA0.
\<close>

definition isspace :: "char \<Rightarrow> bool" where
  "isspace c \<longleftrightarrow>
     c \<in> set [CHR 0x09, CHR 0x0A, CHR 0x0B, CHR 0x0C, CHR 0x0D, CHR 0x1C, CHR 0x1D,
              CHR 0x1E, CHR 0x1F, CHR 0x20, CHR 0x85, CHR 0xA0]"

text \<open>\<^verbatim>\<open>s.strip()\<close>\<close>

definition strip :: "string \<Rightarrow> string" where
  "strip s = rev (dropWhile isspace (rev (dropWhile isspace s)))"

text \<open>
  \<^verbatim>\<open>s.split("\n")\<close>: the pieces between line feeds, always at least one piece. The
  scan keeps the piece read so far.
\<close>

fun split_from :: "string \<Rightarrow> string \<Rightarrow> string list" where
  "split_from cur [] = [cur]"
| "split_from cur (c # cs) =
     (if c = CHR 0x0A then cur # split_from [] cs else split_from (cur @ [c]) cs)"

definition split_nl :: "string \<Rightarrow> string list" where
  "split_nl s = split_from [] s"

text \<open>\<^verbatim>\<open>"\n".join(xs)\<close>\<close>

fun join_nl :: "string list \<Rightarrow> string" where
  "join_nl [] = []"
| "join_nl [x] = x"
| "join_nl (x # y # ys) = x @ CHR 0x0A # join_nl (y # ys)"

text \<open>\<^verbatim>\<open>"*" * level\<close>: the empty string when \<^verbatim>\<open>level\<close> is not positive.\<close>

definition star_string :: "int \<Rightarrow> string" where
  "star_string level = replicate (nat level) CHR ''*''"

section \<open>Outline locator (utils.py)\<close>

text \<open>
  \<^verbatim>\<open>re.match(r"^(\*+)\s+(.+)$", line)\<close> on a line that holds no line feed (every line
  comes from \<^verbatim>\<open>split("\n")\<close>). The result is the pair of groups 1 and 2. The run of
  stars is maximal because white space must follow it. \<^verbatim>\<open>\s+\<close> is greedy; when
  nothing but white space follows the stars it gives its last character back to
  \<^verbatim>\<open>.+\<close>, which needs one character.
\<close>

definition heading_match :: "string \<Rightarrow> (string \<times> string) option" where
  "heading_match line =
     (let stars = takeWhile (\<lambda>c. c = CHR ''*'') line;
          rest = dropWhile (\<lambda>c. c = CHR ''*'') line;
          ws = takeWhile isspace rest;
          text = dropWhile isspace rest
      in if stars = [] \<or> ws = [] then None
         else if text \<noteq> [] then Some (stars, text)
         else if 2 \<le> length ws then Some (stars, [last ws])
         else None)"

text \<open>
  The inner loop of \<^verbatim>\<open>find_heading_in_content\<close>:
  \<^verbatim>\<open>for j in range(i + 1, len(lines))\<close>, over the lines from \<^verbatim>\<open>j\<close> on; \<^verbatim>\<open>end_line\<close>
  starts as \<^verbatim>\<open>len(lines)\<close> and becomes the first \<^verbatim>\<open>j\<close> whose line is a heading
  with at most \<^verbatim>\<open>len(stars)\<close> stars.
\<close>

fun find_end_line :: "nat \<Rightarrow> nat \<Rightarrow> nat \<Rightarrow> string list \<Rightarrow> nat" where
  "find_end_line n n_lines j [] = n_lines"
| "find_end_line n n_lines j (l # ls) =
     (case heading_match l of
        Some (next_stars, _) \<Rightarrow>
          if length next_stars \<le> n then j else find_end_line n n_lines (Suc j) ls
      | None \<Rightarrow> find_end_line n n_lines (Suc j) ls)"

text \<open>The outer loop \<^verbatim>\<open>for i, line in enumerate(lines)\<close>, over the lines from \<^verbatim>\<open>i\<close> on.\<close>

fun find_heading_from ::
  "string \<Rightarrow> string \<Rightarrow> nat \<Rightarrow> nat \<Rightarrow> string list \<Rightarrow> (nat \<times> nat) option" where
  "find_heading_from target_stars target_heading n_lines i [] = None"
| "find_heading_from target_stars target_heading n_lines i (line # rest) =
     (case heading_match line of
        Some (stars, g2) \<Rightarrow>
          if stars = target_stars \<and> strip g2 = target_heading
          then Some (i, find_end_line (length stars) n_lines (Suc i) rest)
          else find_heading_from target_stars target_heading n_lines (Suc i) rest
      | None \<Rightarrow> find_heading_from target_stars target_heading n_lines (Suc i) rest)"

definition find_heading_in_content :: "string \<Rightarrow> string \<Rightarrow> int \<Rightarrow> (nat \<times> nat) option" where
  "find_heading_in_content content target_heading level =
     (let lines = split_nl content
      in find_heading_from (star_string level) target_heading (length lines) 0 lines)"

text \<open>
  The heading syntax in the words of the specification, with the separator class as a
  parameter: \<open>n\<close> marker characters, one or more separators, then a non-empty text.
\<close>

definition heading_line :: "(char \<Rightarrow> bool) \<Rightarrow> nat \<Rightarrow> string \<Rightarrow> bool" where
  "heading_line sep n line \<longleftrightarrow>
     0 < n \<and> (\<exists>ws tx. line = replicate n CHR ''*'' @ ws @ tx \<and>
               ws \<noteq> [] \<and> (\<forall>c\<in>set ws. sep c) \<and> tx \<noteq> [])"

text \<open>Such a line whose text, trimmed, is the label.\<close>

definition labelled_line :: "(char \<Rightarrow> bool) \<Rightarrow> nat \<Rightarrow> string \<Rightarrow> string \<Rightarrow> bool" where
  "labelled_line sep n label line \<longleftrightarrow>
     0 < n \<and> (\<exists>ws tx. line = replicate n CHR ''*'' @ ws @ tx \<and>
               ws \<noteq> [] \<and> (\<forall>c\<in>set ws. sep c) \<and> tx \<noteq> [] \<and> strip tx = label)"

text \<open>A heading line whose marker count is at most \<open>n\<close>.\<close>

definition heading_upto :: "(char \<Rightarrow> bool) \<Rightarrow> nat \<Rightarrow> string \<Rightarrow> bool" where
  "heading_upto sep n line \<longleftrightarrow> (\<exists>m\<le>n. heading_line sep m line)"

definition is_space :: "char \<Rightarrow> bool" where
  "is_space c \<longleftrightarrow> c = CHR '' ''"

text \<open>A line on which the outer loop of \<^verbatim>\<open>find_heading_in_content\<close> stops.\<close>

definition target_line :: "string \<Rightarrow> string \<Rightarrow> string \<Rightarrow> bool" where
  "target_line ts th l \<longleftrightarrow> (\<exists>g2. heading_match l = Some (ts, g2) \<and> strip g2 = th)"

section \<open>Dates, times and agenda items\<close>

text \<open>
  \<^verbatim>\<open>datetime.date\<close> and \<^verbatim>\<open>datetime.datetime\<close> (naive). A date is a year from 1 to
  9999, a month and a day of that month.
\<close>

record date =
  year :: nat
  month :: nat
  day :: nat

record datetime =
  dt_date :: date
  hour :: nat
  minute :: nat
  second :: nat
  microsecond :: nat

definition is_leap :: "nat \<Rightarrow> bool" where
  "is_leap y \<longleftrightarrow> y mod 4 = 0 \<and> (y mod 100 \<noteq> 0 \<or> y mod 400 = 0)"

definition days_in_month :: "nat \<Rightarrow> nat \<Rightarrow> nat" where
  "days_in_month y m =
     (if m = 2 then (if is_leap y then 29 else 28)
      else if m = 4 \<or> m = 6 \<or> m = 9 \<or> m = 11 then 30 else 31)"

definition valid_date :: "nat \<Rightarrow> nat \<Rightarrow> nat \<Rightarrow> bool" where
  "valid_date y m d \<longleftrightarrow>
     1 \<le> y \<and> y \<le> 9999 \<and> 1 \<le> m \<and> m \<le> 12 \<and> 1 \<le> d \<and> d \<le> days_in_month y m"

text \<open>\<^verbatim>\<open>date.toordinal()\<close>: the day number, 1 for 0001-01-01.\<close>

definition days_before_year :: "nat \<Rightarrow> int" where
  "days_before_year y =
     (let y1 = int y - 1 in y1 * 365 + y1 div 4 - y1 div 100 + y1 div 400)"

definition days_before_month :: "nat \<Rightarrow> nat \<Rightarrow> int" where
  "days_before_month y m = int (sum_list (map (days_in_month y) [1..<m]))"

definition toordinal :: "date \<Rightarrow> int" where
  "toordinal d = days_before_year (year d) + days_before_month (year d) (month d) + int (day d)"

text \<open>
  The microseconds from the start of day 0 to a datetime; the difference of two
  datetimes is a \<^verbatim>\<open>timedelta\<close>, an exact count of microseconds.
\<close>

definition micros :: "datetime \<Rightarrow> int" where
  "micros t =
     (((toordinal (dt_date t) * 24 + int (hour t)) * 60 + int (minute t)) * 60
        + int (second t)) * 1000000 + int (microsecond t)"

text \<open>
  \<^verbatim>\<open>(a - b).total_seconds()\<close>. Python computes a float; the model computes the real
  number it rounds. The thresholds the value is compared with are whole minutes and
  hours, which are floats, and a timedelta is a whole number of microseconds, so the
  rounding changes no comparison made below.
\<close>

definition total_seconds :: "datetime \<Rightarrow> datetime \<Rightarrow> real" where
  "total_seconds a b = real_of_int (micros a - micros b) / 1000000"

text \<open>\<^verbatim>\<open>datetime.combine(d, time(h, m))\<close>\<close>

definition combine :: "date \<Rightarrow> nat \<Rightarrow> nat \<Rightarrow> datetime" where
  "combine d h m = \<lparr>dt_date = d, hour = h, minute = m, second = 0, microsecond = 0\<rparr>"

text \<open>Decimal digits, zero padded to a width, as \<^verbatim>\<open>isoformat\<close> prints them.\<close>

definition digit_char :: "nat \<Rightarrow> char" where
  "digit_char n = ''0123456789'' ! (n mod 10)"

fun zero_padded :: "nat \<Rightarrow> nat \<Rightarrow> string" where
  "zero_padded 0 n = []"
| "zero_padded (Suc w) n = zero_padded w (n div 10) @ [digit_char n]"

definition date_isoformat :: "date \<Rightarrow> string" where
  "date_isoformat d =
     zero_padded 4 (year d) @ ''-'' @ zero_padded 2 (month d) @ ''-'' @ zero_padded 2 (day d)"

definition isoformat :: "datetime \<Rightarrow> string" where
  "isoformat t =
     date_isoformat (dt_date t) @ ''T'' @ zero_padded 2 (hour t) @ '':'' @
     zero_padded 2 (minute t) @ '':'' @ zero_padded 2 (second t) @
     (if microsecond t = 0 then [] else ''.'' @ zero_padded 6 (microsecond t))"

text \<open>
  The dictionary \<^verbatim>\<open>item_data\<close> the agenda extractors build for a heading, with its
  nine keys as fields.
\<close>

record item =
  title :: string
  file_name :: string
  file_title :: string
  todo_keyword :: "string option"
  tags :: "string list"
  priority :: "string option"
  scheduled :: "date option"
  deadline :: "date option"
  is_task_file :: bool

text \<open>
  The dictionary \<^verbatim>\<open>agenda_items\<close> that the extractors build and return. A total
  function stands for \<^verbatim>\<open>agenda_items["todos"]\<close>: that dictionary has the keys ACTIVE,
  NEXT, TODO and WAIT from the start, and only these are read or written.
\<close>

record agenda_items =
  schedules_today :: "item list"
  deadlines_today :: "item list"
  todos :: "string \<Rightarrow> item list"


section \<open>Notification scheduler (xmpp_bot.py)\<close>

text \<open>
  The fields of \<^verbatim>\<open>CommandBot\<close> the scheduler reads and writes. \<^verbatim>\<open>subscribers\<close> is a
  Python set; the list holds its members in the order the \<^verbatim>\<open>for\<close> loop visits them.
  The notification window is kept as microseconds since midnight. \<open>attempts\<close> records
  every call \<^verbatim>\<open>self.send_message(mto=..., mbody=..., mtype="chat")\<close> the bot makes, in
  order, whether or not the call raised; \<open>errors\<close> records the lines written with
  \<^verbatim>\<open>logging.error\<close>. \<open>notified\<close> is a history, not a field of the bot: the key and the
  message of every broadcast that one of the two checks has made.
\<close>

record bot =
  subscribers :: "string list"
  notification_start :: nat
  notification_end :: nat
  sent_notifications :: "string set"
  attempts :: "(string \<times> string) list"
  errors :: "string list"
  notified :: "(string \<times> string) list"

text \<open>
  The chat transport is external: \<open>raises mto mbody\<close> tells whether the call of
  \<^verbatim>\<open>send_message\<close> for that recipient and body raises an exception.
\<close>

type_synonym transport = "string \<Rightarrow> string \<Rightarrow> bool"

text \<open>
  The loop \<^verbatim>\<open>for subscriber in self.subscribers: self.send_message(...)\<close>. An
  exception leaves the loop; the result tells the calls made and whether one raised.
\<close>

fun send_loop ::
  "transport \<Rightarrow> string \<Rightarrow> string list \<Rightarrow> (string \<times> string) list
     \<Rightarrow> (string \<times> string) list \<times> bool" where
  "send_loop raises message [] made = (made, False)"
| "send_loop raises message (subscriber # rest) made =
     (if raises subscriber message then (made @ [(subscriber, message)], True)
      else send_loop raises message rest (made @ [(subscriber, message)]))"

text \<open>
  \<^verbatim>\<open>send_notification_to_subscribers\<close>: the \<^verbatim>\<open>try\<close> encloses the whole loop, and the
  handler logs the exception.
\<close>

definition send_notification_to_subscribers :: "transport \<Rightarrow> string \<Rightarrow> bot \<Rightarrow> bot" where
  "send_notification_to_subscribers raises message st =
     (case send_loop raises message (subscribers st) (attempts st) of
        (made, True) \<Rightarrow> st\<lparr>attempts := made, errors := errors st @ [''Error sending notification'']\<rparr>
      | (made, False) \<Rightarrow> st\<lparr>attempts := made\<rparr>)"

text \<open>
  The body every branch of the two checks shares:
  \<^verbatim>\<open>if key not in self.sent_notifications:\<close> send the message, then
  \<^verbatim>\<open>self.sent_notifications.add(key)\<close>.
\<close>

definition notify_once :: "transport \<Rightarrow> string \<Rightarrow> string \<Rightarrow> bot \<Rightarrow> bot" where
  "notify_once raises key message st =
     (if key \<notin> sent_notifications st
      then (send_notification_to_subscribers raises message st)
             \<lparr>sent_notifications := insert key (sent_notifications st),
              notified := notified st @ [(key, message)]\<rparr>
      else st)"

definition item_line :: "item \<Rightarrow> string" where
  "item_line it = title it @ '' ('' @ file_title it @ '')''"

definition schedule_notification_id :: "item \<Rightarrow> datetime \<Rightarrow> string" where
  "schedule_notification_id it scheduled_time =
     ''schedule_'' @ file_name it @ ''_'' @ title it @ ''_'' @ isoformat scheduled_time"

definition check_schedule_notifications ::
  "transport \<Rightarrow> item \<Rightarrow> datetime \<Rightarrow> datetime \<Rightarrow> bot \<Rightarrow> bot" where
  "check_schedule_notifications raises it scheduled_time now st =
     (let total_minutes = total_seconds scheduled_time now / 60;
          notification_id = schedule_notification_id it scheduled_time
      in if 90 \<le> total_minutes \<and> total_minutes \<le> 120 then
           notify_once raises (notification_id @ ''_2h'')
             (''Appointment in ~2 hours:\<newline>'' @ item_line it) st
         else if 60 \<le> total_minutes \<and> total_minutes < 90 then
           notify_once raises (notification_id @ ''_90m'')
             (''Appointment in ~1.5 hours:\<newline>'' @ item_line it) st
         else if 45 \<le> total_minutes \<and> total_minutes < 60 then
           notify_once raises (notification_id @ ''_1h'')
             (''Appointment in ~1 hour:\<newline>'' @ item_line it) st
         else if 30 \<le> total_minutes \<and> total_minutes < 45 then
           notify_once raises (notification_id @ ''_45m'')
             (''Appointment in ~45 minutes:\<newline>'' @ item_line it) st
         else if 15 \<le> total_minutes \<and> total_minutes < 30 then
           notify_once raises (notification_id @ ''_30m'')
             (''Appointment in ~30 minutes:\<newline>'' @ item_line it) st
         else if 0 \<le> total_minutes \<and> total_minutes < 15 then
           notify_once raises (notification_id @ ''_15m'')
             (''URGENT: Appointment in ~15 minutes:\<newline>'' @ item_line it) st
         else st)"

definition deadline_notification_id :: "item \<Rightarrow> datetime \<Rightarrow> string" where
  "deadline_notification_id it deadline_time =
     ''deadline_'' @ file_name it @ ''_'' @ title it @ ''_'' @ date_isoformat (dt_date deadline_time)"

definition check_deadline_notifications ::
  "transport \<Rightarrow> item \<Rightarrow> datetime \<Rightarrow> datetime \<Rightarrow> bot \<Rightarrow> bot" where
  "check_deadline_notifications raises it deadline_time now st =
     (let total_hours = total_seconds deadline_time now / 3600;
          notification_id = deadline_notification_id it deadline_time
      in if 6 \<le> total_hours \<and> total_hours \<le> 8 then
           notify_once raises (notification_id @ ''_today'')
             (''DEADLINE TODAY:\<newline>'' @ item_line it) st
         else st)"

text \<open>\<^verbatim>\<open>is_notification_time\<close>, with the current time as an argument.\<close>

definition time_of_day :: "datetime \<Rightarrow> nat" where
  "time_of_day t = ((hour t * 60 + minute t) * 60 + second t) * 1000000 + microsecond t"

definition is_notification_time :: "bot \<Rightarrow> datetime \<Rightarrow> bool" where
  "is_notification_time st now \<longleftrightarrow>
     notification_start st \<le> time_of_day now \<and> time_of_day now \<le> notification_end st"

text \<open>
  One pass of the loop of \<^verbatim>\<open>schedule_deadline_notifications\<close>, given the two values
  of \<^verbatim>\<open>datetime.now()\<close> (the one \<^verbatim>\<open>is_notification_time\<close> reads and the one taken
  after the extraction) and the agenda that \<^verbatim>\<open>parse_org_agenda_items()\<close> returned: the
  scheduled items are checked against 09:00 of their date, the deadline items against
  23:59 of theirs.
\<close>

definition check_scheduled_item :: "transport \<Rightarrow> datetime \<Rightarrow> item \<Rightarrow> bot \<Rightarrow> bot" where
  "check_scheduled_item raises now it st =
     (case scheduled it of
        Some d \<Rightarrow> check_schedule_notifications raises it (combine d 9 0) now st
      | None \<Rightarrow> st)"

definition check_deadline_item :: "transport \<Rightarrow> datetime \<Rightarrow> item \<Rightarrow> bot \<Rightarrow> bot" where
  "check_deadline_item raises now it st =
     (case deadline it of
        Some d \<Rightarrow> check_deadline_notifications raises it (combine d 23 59) now st
      | None \<Rightarrow> st)"

definition schedule_deadline_notifications_step ::
  "transport \<Rightarrow> datetime \<Rightarrow> agenda_items \<Rightarrow> datetime \<Rightarrow> bot \<Rightarrow> bot" where
  "schedule_deadline_notifications_step raises current_time ag now st =
     (if is_notification_time st current_time
      then fold (check_deadline_item raises now) (deadlines_today ag)
             (fold (check_scheduled_item raises now) (schedules_today ag) st)
      else st)"

text \<open>
  What happens to a running bot, as far as the fields above go: a pass of the threshold
  watch, or a single check of such a pass (so that the states in the middle of a pass
  are covered too), a broadcast of another text (the agenda repeat, the test
  notification), and the commands \<^verbatim>\<open>/subscribe\<close>, \<^verbatim>\<open>/unsubscribe\<close> and
  \<^verbatim>\<open>/notifications\<close>. \<^verbatim>\<open>self.subscribers\<close> is a set, and Python fixes no order in
  which a set is iterated after an element is added or removed: the two commands carry
  the order in which the changed set is iterated from then on, a listing of its members
  without repetition. An event whose listing is not one of the changed set does not
  occur; it leaves the bot as it is.
\<close>

datatype event =
    Watch transport datetime agenda_items datetime
  | Schedule_check transport item datetime datetime
  | Deadline_check transport item datetime datetime
  | Broadcast transport string
  | Subscribe string "string list"
  | Unsubscribe string "string list"
  | Set_window nat nat

fun handle_event :: "event \<Rightarrow> bot \<Rightarrow> bot" where
  "handle_event (Watch raises current_time ag now) st =
     schedule_deadline_notifications_step raises current_time ag now st"
| "handle_event (Schedule_check raises it scheduled_time now) st =
     check_schedule_notifications raises it scheduled_time now st"
| "handle_event (Deadline_check raises it deadline_time now) st =
     check_deadline_notifications raises it deadline_time now st"
| "handle_event (Broadcast raises message) st = send_notification_to_subscribers raises message st"
| "handle_event (Subscribe sender order) st =
     (if sender \<notin> set (subscribers st) \<and> distinct order \<and>
         set order = insert sender (set (subscribers st))
      then st\<lparr>subscribers := order\<rparr> else st)"
| "handle_event (Unsubscribe sender order) st =
     (if sender \<in> set (subscribers st) \<and> distinct order \<and>
         set order = set (subscribers st) - {sender}
      then st\<lparr>subscribers := order\<rparr> else st)"
| "handle_event (Set_window start_time end_time) st =
     st\<lparr>notification_start := start_time, notification_end := end_time\<rparr>"

definition run_events :: "event list \<Rightarrow> bot \<Rightarrow> bot" where
  "run_events evs st = fold handle_event evs st"

text \<open>The key and the message of the bucket a schedule check selects, if any.\<close>

definition schedule_bucket :: "item \<Rightarrow> datetime \<Rightarrow> datetime \<Rightarrow> (string \<times> string) option" where
  "schedule_bucket it scheduled_time now =
     (let tm = total_seconds scheduled_time now / 60; nid = schedule_notification_id it scheduled_time
      in if 90 \<le> tm \<and> tm \<le> 120 then Some (nid @ ''_2h'', ''Appointment in ~2 hours:\<newline>'' @ item_line it)
         else if 60 \<le> tm \<and> tm < 90 then Some (nid @ ''_90m'', ''Appointment in ~1.5 hours:\<newline>'' @ item_line it)
         else if 45 \<le> tm \<and> tm < 60 then Some (nid @ ''_1h'', ''Appointment in ~1 hour:\<newline>'' @ item_line it)
         else if 30 \<le> tm \<and> tm < 45 then Some (nid @ ''_45m'', ''Appointment in ~45 minutes:\<newline>'' @ item_line it)
         else if 15 \<le> tm \<and> tm < 30 then Some (nid @ ''_30m'', ''Appointment in ~30 minutes:\<newline>'' @ item_line it)
         else if 0 \<le> tm \<and> tm < 15 then Some (nid @ ''_15m'', ''URGENT: Appointment in ~15 minutes:\<newline>'' @ item_line it)
         else None)"

definition deadline_bucket :: "item \<Rightarrow> datetime \<Rightarrow> datetime \<Rightarrow> (string \<times> string) option" where
  "deadline_bucket it deadline_time now =
     (let th = total_seconds deadline_time now / 3600; nid = deadline_notification_id it deadline_time
      in if 6 \<le> th \<and> th \<le> 8 then Some (nid @ ''_today'', ''DEADLINE TODAY:\<newline>'' @ item_line it)
         else None)"

text \<open>
  Every broadcast in the history has its own key, and these keys are in the ledger.
\<close>

definition keyed_once :: "bot \<Rightarrow> bool" where
  "keyed_once st \<longleftrightarrow>
     distinct (map fst (notified st)) \<and> fst ` set (notified st) \<subseteq> sent_notifications st"

text \<open>
  Sample data: an item scheduled on 2024-01-05, the day after, and a bot with two
  subscribers.
\<close>

definition sample_day :: date where
  "sample_day = \<lparr>year = 2024, month = 1, day = 5\<rparr>"

definition next_day :: date where
  "next_day = \<lparr>year = 2024, month = 1, day = 6\<rparr>"

definition sample_item :: item where
  "sample_item =
     \<lparr>title = ''Meet'', file_name = ''a.org'', file_title = ''A'', todo_keyword = None,
      tags = [], priority = None, scheduled = Some sample_day, deadline = Some sample_day,
      is_task_file = False\<rparr>"

text \<open>The same item, of the same file and title, moved to the next day.\<close>

definition moved_item :: item where
  "moved_item = sample_item\<lparr>scheduled := Some next_day\<rparr>"

definition sample_bot :: bot where
  "sample_bot =
     \<lparr>subscribers = [''bad@@jid'', ''alice@example.org''],
      notification_start = 0, notification_end = 86399999999,
      sent_notifications = {}, attempts = [], errors = [], notified = []\<rparr>"


section \<open>Outline editor and title (utils.py, main.py)\<close>

text \<open>A line is blank when \<^verbatim>\<open>line.strip()\<close> is empty.\<close>

definition blank :: "string \<Rightarrow> bool" where
  "blank l \<longleftrightarrow> strip l = []"

text \<open>
  \<^verbatim>\<open>get_heading_content\<close>: the lines between the heading and the end of its body,
  without the blank lines at both ends (the two \<^verbatim>\<open>while\<close> statements pop them).
\<close>

definition get_heading_content :: "string \<Rightarrow> string \<Rightarrow> int \<Rightarrow> string" where
  "get_heading_content content heading level =
     (case find_heading_in_content content heading level of
        None \<Rightarrow> []
      | Some (start_line, end_line) \<Rightarrow>
          (let lines = split_nl content
           in if end_line > start_line + 1 then
                (let content_lines = drop (start_line + 1) (take end_line lines)
                 in join_nl (rev (dropWhile blank (rev (dropWhile blank content_lines)))))
              else []))"

definition update_heading_in_content ::
  "string \<Rightarrow> string \<Rightarrow> string \<Rightarrow> string \<Rightarrow> int \<Rightarrow> string" where
  "update_heading_in_content content old_heading new_heading new_content level =
     (let lines = split_nl content
      in case find_heading_in_content content old_heading level of
           None \<Rightarrow> content
         | Some (start_line, end_line) \<Rightarrow>
             (let stars = star_string level;
                  new_heading_line = stars @ '' '' @ new_heading;
                  new_lines = take start_line lines @ [new_heading_line];
                  new_lines = (if strip new_content \<noteq> []
                               then new_lines @ [[]] @ split_nl new_content else new_lines)
              in join_nl (new_lines @ drop end_line lines)))"

text \<open>
  \<^verbatim>\<open>add_heading_to_content\<close> of main.py. Its last parameter is
  \<^verbatim>\<open>auth=Depends(verify_token)\<close>; when the value is a \<^verbatim>\<open>RedirectResponse\<close> the function
  returns it. The parent heading is absent when it is \<^verbatim>\<open>None\<close> or the empty string.
\<close>

datatype auth = Depends | RedirectResponse

definition add_heading_to_content ::
  "string \<Rightarrow> string option \<Rightarrow> int \<Rightarrow> string \<Rightarrow> string \<Rightarrow> int \<Rightarrow> auth \<Rightarrow> auth + string" where
  "add_heading_to_content content parent_heading parent_level new_heading new_content new_level au =
     (if au = RedirectResponse then Inl au
      else
        (let lines = split_nl content;
             insert_position =
               (case parent_heading of
                  None \<Rightarrow> Some (length lines)
                | Some p \<Rightarrow>
                    if p = [] then Some (length lines)
                    else (case find_heading_in_content content p parent_level of
                            None \<Rightarrow> None
                          | Some (start_line, end_line) \<Rightarrow> Some end_line))
         in case insert_position of
              None \<Rightarrow> Inr content
            | Some insert_position \<Rightarrow>
                (let stars = star_string new_level;
                     new_heading_line = stars @ '' '' @ new_heading;
                     new_lines = take insert_position lines;
                     new_lines = (if new_lines \<noteq> [] \<and> strip (last new_lines) \<noteq> []
                                  then new_lines @ [[]] else new_lines);
                     new_lines = new_lines @ [new_heading_line];
                     new_lines = (if strip new_content \<noteq> []
                                  then new_lines @ [[]] @ split_nl new_content else new_lines)
                 in Inr (join_nl (new_lines @ drop insert_position lines)))))"

text \<open>
  \<^verbatim>\<open>line.split(":", 1)\<close>: the line itself when it holds no colon, else the parts before
  and after the first colon.
\<close>

definition split_colon_once :: "string \<Rightarrow> string list" where
  "split_colon_once line =
     (case dropWhile (\<lambda>c. c \<noteq> CHR '':'') line of
        [] \<Rightarrow> [line]
      | _ # after \<Rightarrow> [takeWhile (\<lambda>c. c \<noteq> CHR '':'') line, after])"

datatype py_error = IndexError | ValueError

text \<open>\<^verbatim>\<open>xs[i]\<close> for an index that is not negative.\<close>

definition index :: "'a list \<Rightarrow> nat \<Rightarrow> py_error + 'a" where
  "index xs i = (if i < length xs then Inr (xs ! i) else Inl IndexError)"

fun title_from_lines :: "string list \<Rightarrow> py_error + string option" where
  "title_from_lines [] = Inr None"
| "title_from_lines (line # rest) =
     (if prefix ''#+title:'' line \<or> prefix ''#+TITLE:'' line
      then (case index (split_colon_once line) 1 of
              Inl e \<Rightarrow> Inl e
            | Inr after \<Rightarrow> Inr (Some (strip after)))
      else title_from_lines rest)"

definition extract_title_from_content :: "string \<Rightarrow> py_error + string option" where
  "extract_title_from_content content = title_from_lines (split_nl content)"

text \<open>
  The title of a document, as \<^verbatim>\<open>load_all_org_files\<close> and the agenda extractors take
  it: \<^verbatim>\<open>if not title: title = file.stem\<close>, where \<^verbatim>\<open>None\<close> and the empty string are
  both false. An exception propagates to the caller.
\<close>

definition document_title :: "string \<Rightarrow> string \<Rightarrow> py_error + string" where
  "document_title content stem =
     (case extract_title_from_content content of
        Inl e \<Rightarrow> Inl e
      | Inr None \<Rightarrow> Inr stem
      | Inr (Some t) \<Rightarrow> Inr (if t = [] then stem else t))"

text \<open>A line that starts with one of the two spellings of the title keyword.\<close>

definition title_line :: "string \<Rightarrow> bool" where
  "title_line line \<longleftrightarrow> prefix ''#+title:'' line \<or> prefix ''#+TITLE:'' line"

text \<open>
  The title keyword in any casing, as the specification has it. \<^verbatim>\<open>str.lower()\<close> maps
  the capital letters below code point 256 (A to Z, and 0xC0 to 0xDE without 0xD7).
\<close>

definition lower_char :: "char \<Rightarrow> char" where
  "lower_char c =
     (let n = (of_char c :: nat)
      in if (65 \<le> n \<and> n \<le> 90) \<or> (192 \<le> n \<and> n \<le> 222 \<and> n \<noteq> 215)
         then char_of (n + 32) else c)"

definition title_line_any_case :: "string \<Rightarrow> bool" where
  "title_line_any_case line \<longleftrightarrow> prefix ''#+title:'' (map lower_char line)"


section \<open>Agenda extractor (utils.py)\<close>

subsection \<open>Timestamps\<close>

text \<open>
  \<^verbatim>\<open>re.search(r"SCHEDULED:\s*<([^>]+)>", content)\<close> and the same for \<^verbatim>\<open>DEADLINE:\<close>. At
  one position the pattern matches in one way only: the keyword, all the white space
  that follows, \<^verbatim>\<open><\<close>, all the characters up to the next \<^verbatim>\<open>>\<close>, of which there must be
  one at least, and that \<^verbatim>\<open>>\<close>. The search takes the leftmost position that
  matches and returns group 1.
\<close>

definition match_timestamp_at :: "string \<Rightarrow> string \<Rightarrow> string option" where
  "match_timestamp_at keyword s =
     (if prefix keyword s then
        (case dropWhile isspace (drop (length keyword) s) of
           [] \<Rightarrow> None
         | c # rest \<Rightarrow>
             if c = CHR ''<'' \<and> takeWhile (\<lambda>c. c \<noteq> CHR ''>'') rest \<noteq> [] \<and>
                dropWhile (\<lambda>c. c \<noteq> CHR ''>'') rest \<noteq> []
             then Some (takeWhile (\<lambda>c. c \<noteq> CHR ''>'') rest)
             else None)
      else None)"

fun re_search_timestamp :: "string \<Rightarrow> string \<Rightarrow> string option" where
  "re_search_timestamp keyword [] = None"
| "re_search_timestamp keyword (c # cs) =
     (case match_timestamp_at keyword (c # cs) of
        Some date_str \<Rightarrow> Some date_str
      | None \<Rightarrow> re_search_timestamp keyword cs)"

text \<open>
  \<^verbatim>\<open>s.split()\<close>: the maximal runs of characters that are not white space. The scan
  keeps the run read so far.
\<close>

fun split_ws_from :: "string \<Rightarrow> string \<Rightarrow> string list" where
  "split_ws_from cur [] = (if cur = [] then [] else [cur])"
| "split_ws_from cur (c # cs) =
     (if isspace c then (if cur = [] then split_ws_from [] cs else cur # split_ws_from [] cs)
      else split_ws_from (cur @ [c]) cs)"

definition split_ws :: "string \<Rightarrow> string list" where
  "split_ws s = split_ws_from [] s"

text \<open>
  \<^verbatim>\<open>datetime.strptime(date_part, "%Y-%m-%d").date()\<close>. The format becomes the pattern
  \<^verbatim>\<open>(\d\d\d\d)-(1[0-2]|0[1-9]|[1-9])-(3[0-1]|[1-2]\d|0[1-9]|[1-9]| [1-9])\<close>, which must
  match the whole string; the three numbers must then be a date. Every failure is a
  \<^verbatim>\<open>ValueError\<close>.
\<close>

definition is_digit :: "char \<Rightarrow> bool" where
  "is_digit c \<longleftrightarrow> c \<in> set ''0123456789''"

definition digit_value :: "char \<Rightarrow> nat" where
  "digit_value c = of_char c - 48"

definition int_of_digits :: "string \<Rightarrow> nat" where
  "int_of_digits s = foldl (\<lambda>a c. 10 * a + digit_value c) 0 s"

definition month_field :: "string \<Rightarrow> bool" where
  "month_field m \<longleftrightarrow>
     (length m = 1 \<or> length m = 2) \<and> list_all is_digit m \<and>
     1 \<le> int_of_digits m \<and> int_of_digits m \<le> 12"

definition day_field :: "string \<Rightarrow> bool" where
  "day_field d \<longleftrightarrow>
     (length d = 1 \<or> length d = 2) \<and> list_all is_digit d \<and>
       1 \<le> int_of_digits d \<and> int_of_digits d \<le> 31
     \<or> length d = 2 \<and> hd d = CHR '' '' \<and> is_digit (d ! 1) \<and> d ! 1 \<noteq> CHR ''0''"

definition strptime_ymd :: "string \<Rightarrow> py_error + date" where
  "strptime_ymd s =
     (let y = take 4 s; after_y = drop 4 s
      in if length y = 4 \<and> list_all is_digit y \<and> after_y \<noteq> [] \<and> hd after_y = CHR ''-'' then
           (let m = takeWhile (\<lambda>c. c \<noteq> CHR ''-'') (tl after_y);
                after_m = dropWhile (\<lambda>c. c \<noteq> CHR ''-'') (tl after_y)
            in if month_field m \<and> after_m \<noteq> [] then
                 (let d = tl after_m
                  in if day_field d then
                       (let yv = int_of_digits y; mv = int_of_digits m;
                            dv = int_of_digits (dropWhile (\<lambda>c. c = CHR '' '') d)
                        in if valid_date yv mv dv
                           then Inr \<lparr>year = yv, month = mv, day = dv\<rparr>
                           else Inl ValueError)
                     else Inl ValueError)
               else Inl ValueError)
         else Inl ValueError)"

text \<open>
  One of the two blocks of \<^verbatim>\<open>parse_timestamps_in_content\<close>: the search, then under
  \<^verbatim>\<open>try\<close> the first item of \<^verbatim>\<open>date_str.split()\<close> and its parsing; \<^verbatim>\<open>except: pass\<close>
  leaves the date \<^verbatim>\<open>None\<close>.
\<close>

definition timestamp_date :: "string \<Rightarrow> string \<Rightarrow> date option" where
  "timestamp_date keyword content_after_heading =
     (case re_search_timestamp keyword content_after_heading of
        None \<Rightarrow> None
      | Some date_str \<Rightarrow>
          (case index (split_ws date_str) 0 of
             Inl e \<Rightarrow> None
           | Inr date_part \<Rightarrow>
               (case strptime_ymd date_part of
                  Inl e \<Rightarrow> None
                | Inr d \<Rightarrow> Some d)))"

definition parse_timestamps_in_content :: "string \<Rightarrow> string \<Rightarrow> date option \<times> date option" where
  "parse_timestamps_in_content heading_text content_after_heading =
     (timestamp_date ''SCHEDULED:'' content_after_heading,
      timestamp_date ''DEADLINE:'' content_after_heading)"

text \<open>
  The two readings of a bracketed value: its first ten characters, as the claim has
  it, and its first run of characters that are not white space.
\<close>

definition first_ten :: "string \<Rightarrow> string" where
  "first_ten date_str = take 10 date_str"

definition first_token :: "string \<Rightarrow> string" where
  "first_token date_str = takeWhile (\<lambda>c. \<not> isspace c) (dropWhile isspace date_str)"

text \<open>
  The date of the first occurrence of a keyword's timestamp, read from the bracketed
  value by \<open>pick\<close>; absent when there is no occurrence or the reading is no date.
\<close>

definition date_by :: "(string \<Rightarrow> string) \<Rightarrow> string \<Rightarrow> string \<Rightarrow> date option" where
  "date_by pick keyword content_after_heading =
     (case re_search_timestamp keyword content_after_heading of
        None \<Rightarrow> None
      | Some date_str \<Rightarrow>
          (case strptime_ymd (pick date_str) of Inl e \<Rightarrow> None | Inr d \<Rightarrow> Some d))"

subsection \<open>The index from heading text to the lines that follow\<close>

text \<open>
  The scan that builds \<^verbatim>\<open>content_sections\<close>. Its pattern \<^verbatim>\<open>^(\*+)\s+(.+)\<close> has no
  \<^verbatim>\<open>$\<close>, but \<^verbatim>\<open>.+\<close> runs to the end of the line, so the groups are those of
  \<^const>\<open>heading_match\<close>. The state is the dictionary, \<^verbatim>\<open>current_heading\<close> and
  \<^verbatim>\<open>current_content\<close>. \<^verbatim>\<open>if current_heading:\<close> is false for \<^verbatim>\<open>None\<close> and for the empty
  string.
\<close>

type_synonym sections = "string \<rightharpoonup> string"

definition store_section :: "sections \<Rightarrow> string option \<Rightarrow> string list \<Rightarrow> sections" where
  "store_section content_sections current_heading current_content =
     (case current_heading of
        None \<Rightarrow> content_sections
      | Some h \<Rightarrow> if h = [] then content_sections
                  else content_sections(h \<mapsto> join_nl current_content))"

definition section_step ::
  "string \<Rightarrow> sections \<times> string option \<times> string list \<Rightarrow> sections \<times> string option \<times> string list" where
  "section_step line st =
     (case st of (content_sections, current_heading, current_content) \<Rightarrow>
        (case heading_match line of
           Some (stars, g2) \<Rightarrow>
             (store_section content_sections current_heading current_content, Some (strip g2), [])
         | None \<Rightarrow> (content_sections, current_heading, current_content @ [line])))"

definition sections_of_lines :: "string list \<Rightarrow> sections" where
  "sections_of_lines lines =
     (case fold section_step lines (Map.empty, None, []) of
        (content_sections, current_heading, current_content) \<Rightarrow>
          store_section content_sections current_heading current_content)"

definition content_sections_of :: "string \<Rightarrow> sections" where
  "content_sections_of content = sections_of_lines (split_nl content)"

text \<open>The trimmed text of a heading line.\<close>

definition heading_text :: "string \<Rightarrow> string option" where
  "heading_text line = map_option (\<lambda>(stars, g2). strip g2) (heading_match line)"

subsection \<open>The walk over the parsed outline\<close>

text \<open>
  A node of the tree that \<^verbatim>\<open>orgparse.load\<close> returns, with the attributes the walk reads:
  \<^verbatim>\<open>heading\<close>, \<^verbatim>\<open>todo\<close>, \<^verbatim>\<open>tags\<close>, \<^verbatim>\<open>priority\<close> and \<^verbatim>\<open>children\<close>. The parser is external;
  the tree is an input.
\<close>

datatype node =
  Node (node_heading: string) (node_todo: "string option") (node_tags: "string list")
       (node_priority: "string option") (children: "node list")

text \<open>
  \<^verbatim>\<open>re.match(r"^(ACTIVE|NEXT|TODO|WAIT|DONE)\s+", heading)\<close>: group 1 and group 0, the
  keyword with all the white space after it.
\<close>

definition todo_match :: "string \<Rightarrow> (string \<times> string) option" where
  "todo_match h =
     (case filter (\<lambda>k. prefix k h \<and> takeWhile isspace (drop (length k) h) \<noteq> [])
             [''ACTIVE'', ''NEXT'', ''TODO'', ''WAIT'', ''DONE''] of
        [] \<Rightarrow> None
      | k # ks \<Rightarrow> Some (k, k @ takeWhile isspace (drop (length k) h)))"

text \<open>
  \<^verbatim>\<open>todo_keyword\<close> and \<^verbatim>\<open>original_heading\<close> of a node: the parser's status when it is
  true, else a leading status token of the heading, which is then stripped.
\<close>

definition heading_status :: "node \<Rightarrow> string option \<times> string" where
  "heading_status n =
     (if node_todo n = None \<or> node_todo n = Some [] then
        (case todo_match (node_heading n) of
           Some (g1, g0) \<Rightarrow> (Some g1, strip (drop (length g0) (node_heading n)))
         | None \<Rightarrow> (node_todo n, node_heading n))
      else (node_todo n, node_heading n))"

text \<open>What the walk of one file captures from its enclosing scope.\<close>

record file_ctx =
  ctx_file_name :: string
  ctx_file_title :: string
  ctx_is_task_file :: bool
  ctx_today :: date
  ctx_sections :: sections

text \<open>
  \<^verbatim>\<open>content_sections.get(original_heading, content_sections.get(node.heading, ""))\<close>
\<close>

definition heading_content_of :: "sections \<Rightarrow> string \<Rightarrow> string \<Rightarrow> string" where
  "heading_content_of content_sections original_heading heading =
     (case content_sections original_heading of
        Some c \<Rightarrow> c
      | None \<Rightarrow> (case content_sections heading of Some c \<Rightarrow> c | None \<Rightarrow> []))"

definition item_data :: "file_ctx \<Rightarrow> node \<Rightarrow> item" where
  "item_data ctx n =
     (case heading_status n of (keyword, original_heading) \<Rightarrow>
        (case parse_timestamps_in_content original_heading
                (heading_content_of (ctx_sections ctx) original_heading (node_heading n)) of
           (sched, dead) \<Rightarrow>
             \<lparr>title = original_heading, file_name = ctx_file_name ctx,
              file_title = ctx_file_title ctx, todo_keyword = keyword,
              tags = node_tags n, priority = node_priority n,
              scheduled = sched, deadline = dead,
              is_task_file = ctx_is_task_file ctx\<rparr>))"

text \<open>
  The state of the walk: the set \<^verbatim>\<open>processed_items\<close> of the file and the dictionary
  \<^verbatim>\<open>agenda_items\<close>.
\<close>

record walk_state =
  processed_items :: "string set"
  agenda_acc :: agenda_items

definition add_schedule :: "date \<Rightarrow> item \<Rightarrow> walk_state \<Rightarrow> walk_state" where
  "add_schedule today it st =
     (if scheduled it = Some today then
        (let item_id = ''schedule:'' @ file_name it @ '':'' @ title it
         in if item_id \<notin> processed_items st
            then \<lparr>processed_items = insert item_id (processed_items st),
                  agenda_acc = (agenda_acc st)\<lparr>schedules_today := schedules_today (agenda_acc st) @ [it]\<rparr>\<rparr>
            else st)
      else st)"

definition add_deadline :: "date \<Rightarrow> item \<Rightarrow> walk_state \<Rightarrow> walk_state" where
  "add_deadline today it st =
     (if deadline it = Some today then
        (let item_id = ''deadline:'' @ file_name it @ '':'' @ title it
         in if item_id \<notin> processed_items st
            then \<lparr>processed_items = insert item_id (processed_items st),
                  agenda_acc = (agenda_acc st)\<lparr>deadlines_today := deadlines_today (agenda_acc st) @ [it]\<rparr>\<rparr>
            else st)
      else st)"

definition add_todo :: "string \<Rightarrow> item \<Rightarrow> walk_state \<Rightarrow> walk_state" where
  "add_todo kw it st =
     (let item_id = ''todo:'' @ file_name it @ '':'' @ kw @ '':'' @ title it
      in if item_id \<notin> processed_items st
         then \<lparr>processed_items = insert item_id (processed_items st),
               agenda_acc = (agenda_acc st)
                 \<lparr>todos := (todos (agenda_acc st))(kw := todos (agenda_acc st) kw @ [it])\<rparr>\<rparr>
         else st)"

definition open_keyword :: "string option \<Rightarrow> bool" where
  "open_keyword keyword \<longleftrightarrow>
     (case keyword of
        None \<Rightarrow> False
      | Some k \<Rightarrow> k \<noteq> [] \<and> k \<in> set [''ACTIVE'', ''NEXT'', ''TODO'', ''WAIT''])"

text \<open>
  The first part of \<^verbatim>\<open>walk_nodes\<close>, for a node with a heading, in
  \<^verbatim>\<open>parse_org_agenda_items\<close>.
\<close>

definition visit :: "file_ctx \<Rightarrow> node \<Rightarrow> walk_state \<Rightarrow> walk_state" where
  "visit ctx n st =
     (if node_heading n \<noteq> [] then
        (let it = item_data ctx n;
             st = add_schedule (ctx_today ctx) it st;
             st = add_deadline (ctx_today ctx) it st
         in if open_keyword (todo_keyword it) then add_todo (the (todo_keyword it)) it st else st)
      else st)"

text \<open>
  The same part in \<^verbatim>\<open>parse_org_agenda_items_task_only\<close>: the last condition has the
  conjunct \<^verbatim>\<open>and is_task_file\<close>.
\<close>

definition visit_task_only :: "file_ctx \<Rightarrow> node \<Rightarrow> walk_state \<Rightarrow> walk_state" where
  "visit_task_only ctx n st =
     (if node_heading n \<noteq> [] then
        (let it = item_data ctx n;
             st = add_schedule (ctx_today ctx) it st;
             st = add_deadline (ctx_today ctx) it st
         in if open_keyword (todo_keyword it) \<and> ctx_is_task_file ctx
            then add_todo (the (todo_keyword it)) it st else st)
      else st)"

text \<open>
  \<^verbatim>\<open>walk_nodes\<close>: the part above, then the children in order. Both extractors have
  this function; \<open>v\<close> is the first part of theirs.
\<close>

fun walk_nodes :: "(node \<Rightarrow> walk_state \<Rightarrow> walk_state) \<Rightarrow> node \<Rightarrow> walk_state \<Rightarrow> walk_state" where
  "walk_nodes v (Node h t tg p ch) st = fold (walk_nodes v) ch (v (Node h t tg p ch) st)"

subsection \<open>Files and directories\<close>

text \<open>
  A file of the directory as the extractors meet it: its name and stem, its text
  (\<open>None\<close> when opening or reading raises) and the children of the root that
  \<^verbatim>\<open>orgparse.load\<close> returns (\<open>None\<close> when the parser raises).
\<close>

record org_file =
  path_name :: string
  path_stem :: string
  file_text :: "string option"
  root_children :: "node list option"

text \<open>\<^verbatim>\<open>sub in s\<close> for strings.\<close>

fun contains :: "string \<Rightarrow> string \<Rightarrow> bool" where
  "contains sub [] = (sub = [])"
| "contains sub (c # cs) = (prefix sub (c # cs) \<or> contains sub cs)"

text \<open>
  \<^verbatim>\<open>s.split(sep)\<close> and \<^verbatim>\<open>s.replace(old, "")\<close> for a separator and an \<^verbatim>\<open>old\<close> that are
  not empty (they are literals in the source).
\<close>

function split_sep :: "string \<Rightarrow> string \<Rightarrow> string \<Rightarrow> string list" where
  "split_sep sep cur s =
     (if s = [] then [cur]
      else if sep \<noteq> [] \<and> prefix sep s then cur # split_sep sep [] (drop (length sep) s)
      else split_sep sep (cur @ [hd s]) (tl s))"
  by pat_completeness auto
termination
  by (relation "measure (\<lambda>(sep, cur, s). length s)") (auto simp: prefix_def)

function remove_all :: "string \<Rightarrow> string \<Rightarrow> string" where
  "remove_all old s =
     (if s = [] then []
      else if old \<noteq> [] \<and> prefix old s then remove_all old (drop (length old) s)
      else hd s # remove_all old (tl s))"
  by pat_completeness auto
termination
  by (relation "measure (\<lambda>(old, s). length s)") (auto simp: prefix_def)

text \<open>
  \<^verbatim>\<open>has_task_filetag\<close>: some part of the name after the first \<^verbatim>\<open>__\<close>, without
  \<^verbatim>\<open>.org\<close> and in lower case, has \<^verbatim>\<open>task\<close> among its pieces between underscores.
\<close>

definition has_task_filetag :: "string \<Rightarrow> bool" where
  "has_task_filetag filename =
     list_ex (\<lambda>part. ''task'' \<in> set (split_sep ''_'' [] (map lower_char (remove_all ''.org'' part))))
       (tl (split_sep ''__'' [] filename))"

text \<open>
  The body of the loop over the files in \<^verbatim>\<open>parse_org_agenda_items\<close>. Everything that
  can raise comes before the walk, so \<^verbatim>\<open>except Exception: continue\<close> leaves
  \<^verbatim>\<open>agenda_items\<close> as it was.
\<close>

definition add_file :: "date \<Rightarrow> org_file \<Rightarrow> agenda_items \<Rightarrow> agenda_items" where
  "add_file today f ag =
     (case file_text f of
        None \<Rightarrow> ag
      | Some content \<Rightarrow>
          (case root_children f of
             None \<Rightarrow> ag
           | Some top_nodes \<Rightarrow>
               (case document_title content (path_stem f) of
                  Inl e \<Rightarrow> ag
                | Inr doc_title \<Rightarrow>
                    (let ctx = \<lparr>ctx_file_name = path_name f, ctx_file_title = doc_title,
                                ctx_is_task_file =
                                  (contains ''__task'' (path_name f) \<or> contains ''_task'' (path_name f)),
                                ctx_today = today,
                                ctx_sections = content_sections_of content\<rparr>
                     in agenda_acc (fold (walk_nodes (visit ctx)) top_nodes
                          \<lparr>processed_items = {}, agenda_acc = ag\<rparr>)))))"

definition add_file_task_only :: "date \<Rightarrow> org_file \<Rightarrow> agenda_items \<Rightarrow> agenda_items" where
  "add_file_task_only today f ag =
     (case file_text f of
        None \<Rightarrow> ag
      | Some content \<Rightarrow>
          (case root_children f of
             None \<Rightarrow> ag
           | Some top_nodes \<Rightarrow>
               (case document_title content (path_stem f) of
                  Inl e \<Rightarrow> ag
                | Inr doc_title \<Rightarrow>
                    (let ctx = \<lparr>ctx_file_name = path_name f, ctx_file_title = doc_title,
                                ctx_is_task_file = has_task_filetag (path_name f),
                                ctx_today = today,
                                ctx_sections = content_sections_of content\<rparr>
                     in agenda_acc (fold (walk_nodes (visit_task_only ctx)) top_nodes
                          \<lparr>processed_items = {}, agenda_acc = ag\<rparr>)))))"

definition empty_agenda :: agenda_items where
  "empty_agenda = \<lparr>schedules_today = [], deadlines_today = [], todos = (\<lambda>k. [])\<rparr>"

text \<open>
  The two extractors, given the files that \<^verbatim>\<open>path.glob("*.org")\<close> lists, in its order,
  and the value of \<^verbatim>\<open>date.today()\<close>.
\<close>

definition parse_org_agenda_items :: "org_file list \<Rightarrow> date \<Rightarrow> agenda_items" where
  "parse_org_agenda_items org_files today = fold (add_file today) org_files empty_agenda"

definition parse_org_agenda_items_task_only :: "org_file list \<Rightarrow> date \<Rightarrow> agenda_items" where
  "parse_org_agenda_items_task_only org_files today =
     fold (add_file_task_only today) org_files empty_agenda"

text \<open>An item with the task flag the task-only extractor gives its file.\<close>

definition task_flagged :: "item \<Rightarrow> item" where
  "task_flagged it = it\<lparr>is_task_file := has_task_filetag (file_name it)\<rparr>"

definition in_task_file :: "item \<Rightarrow> bool" where
  "in_task_file it \<longleftrightarrow> has_task_filetag (file_name it)"

text \<open>
  The lines that follow line \<open>i\<close> up to the next heading line, joined: the body that the
  index attributes to a heading at line \<open>i\<close>.
\<close>

definition body_after :: "string list \<Rightarrow> nat \<Rightarrow> string" where
  "body_after ls i = join_nl (takeWhile (\<lambda>l. heading_match l = None) (drop (Suc i) ls))"

text \<open>Sample data for the extractors.\<close>

definition sample_ctx :: "string \<Rightarrow> file_ctx" where
  "sample_ctx content =
     \<lparr>ctx_file_name = ''a.org'', ctx_file_title = ''A'', ctx_is_task_file = False,
      ctx_today = sample_day, ctx_sections = content_sections_of content\<rparr>"

definition twice_a :: string where
  "twice_a = ''* a\<newline>SCHEDULED: <2024-01-01>\<newline>* a\<newline>SCHEDULED: <2024-01-02>''"

definition twice_next_a :: string where
  "twice_next_a =
     ''* NEXT a\<newline>SCHEDULED: <2024-01-01>\<newline>* NEXT a\<newline>SCHEDULED: <2024-01-02>\<newline>* a\<newline>SCHEDULED: <2024-01-03>''"

text \<open>
  How the agenda of the task-only extractor relates to that of the full one, and how
  the states of their walks of one file relate (\<open>flag\<close> is the task flag the task-only
  extractor gives the file).
\<close>

definition agenda_rel :: "agenda_items \<Rightarrow> agenda_items \<Rightarrow> bool" where
  "agenda_rel full task \<longleftrightarrow>
     schedules_today task = map task_flagged (schedules_today full) \<and>
     deadlines_today task = map task_flagged (deadlines_today full) \<and>
     (\<forall>k. todos task k = map task_flagged (filter in_task_file (todos full k)))"

definition walk_rel :: "bool \<Rightarrow> walk_state \<Rightarrow> walk_state \<Rightarrow> bool" where
  "walk_rel flag full task \<longleftrightarrow>
     agenda_rel (agenda_acc full) (agenda_acc task) \<and>
     processed_items task = {x \<in> processed_items full. flag \<or> \<not> prefix ''todo:'' x}"

definition sample_file :: org_file where
  "sample_file =
     \<lparr>path_name = ''note_tasks.org'', path_stem = ''note_tasks'',
      file_text = Some ''* NEXT a\<newline>SCHEDULED: <2024-01-05>'',
      root_children = Some [Node ''NEXT a'' None [] None []]\<rparr>"

text \<open>The index that the scan builds from a given state over the remaining lines.\<close>

definition sections_from ::
  "sections \<times> string option \<times> string list \<Rightarrow> string list \<Rightarrow> sections" where
  "sections_from st ls =
     (case fold section_step ls st of (m, h, cc) \<Rightarrow> store_section m h cc)"


section \<open>Properties of the outline locator\<close>

lemma isspace_not_star: "isspace c \<Longrightarrow> c \<noteq> CHR ''*''"
  by (auto simp: isspace_def)

lemma strip_dropWhile: "strip (dropWhile isspace s) = strip s"
  by (simp add: strip_def)

lemma strip_all_space: "\<forall>c\<in>set s. isspace c \<Longrightarrow> strip s = []"
proof -
  assume "\<forall>c\<in>set s. isspace c"
  then have d: "dropWhile isspace s = []" by (simp add: dropWhile_eq_Nil_conv)
  show ?thesis unfolding strip_def d by simp
qed

lemma strip_append_space: "\<forall>c\<in>set ws. isspace c \<Longrightarrow> strip (ws @ s) = strip s"
  by (simp add: strip_def dropWhile_append2)

lemma takeWhile_star_replicate:
  "takeWhile (\<lambda>c. c = CHR ''*'') s = replicate (length (takeWhile (\<lambda>c. c = CHR ''*'') s)) CHR ''*''"
  by (induction s) auto

lemma heading_match_SomeD:
  assumes "heading_match line = Some (stars, g2)"
  shows "\<exists>ws tx. stars \<noteq> [] \<and> stars = replicate (length stars) CHR ''*'' \<and>
           line = stars @ ws @ tx \<and> ws \<noteq> [] \<and> (\<forall>c\<in>set ws. isspace c) \<and> tx \<noteq> [] \<and>
           strip tx = strip g2"
proof -
  define st where "st = takeWhile (\<lambda>c. c = CHR ''*'') line"
  define rest where "rest = dropWhile (\<lambda>c. c = CHR ''*'') line"
  define ws where "ws = takeWhile isspace rest"
  define tx where "tx = dropWhile isspace rest"
  have line: "line = st @ rest" by (simp add: st_def rest_def)
  have rest: "rest = ws @ tx" by (simp add: ws_def tx_def)
  have wsp: "\<forall>c\<in>set ws. isspace c" unfolding ws_def by (auto dest: set_takeWhileD)
  have strep: "st = replicate (length st) CHR ''*''"
    unfolding st_def by (rule takeWhile_star_replicate)
  from assms have ne: "st \<noteq> []" "ws \<noteq> []" and stars: "stars = st"
    by (auto simp: heading_match_def Let_def st_def rest_def ws_def tx_def split: if_splits)
  show ?thesis
  proof (cases "tx = []")
    case False
    with assms have "g2 = tx"
      by (auto simp: heading_match_def Let_def st_def rest_def ws_def tx_def split: if_splits)
    with False ne stars strep line rest wsp show ?thesis
      unfolding tx_def by (intro exI[of _ ws] exI[of _ tx]) (auto simp: tx_def strip_dropWhile)
  next
    case True
    with assms have g2: "g2 = [last ws]" and len: "2 \<le> length ws"
      by (auto simp: heading_match_def Let_def st_def rest_def ws_def tx_def split: if_splits)
    have bl: "butlast ws \<noteq> []" using len by (cases ws rule: rev_cases) auto
    have ws_split: "ws = butlast ws @ [last ws]" using ne by simp
    have "isspace (last ws)" using wsp ne by auto
    then have sg: "strip [last ws] = []" by (simp add: strip_all_space)
    have l2: "line = st @ butlast ws @ [last ws]"
      using line rest True ws_split by simp
    have "\<forall>c\<in>set (butlast ws). isspace c" using wsp by (auto dest: in_set_butlastD)
    with bl l2 sg g2 ne stars strep show ?thesis
      by (intro exI[of _ "butlast ws"] exI[of _ "[last ws]"]) auto
  qed
qed

lemma heading_match_SomeI:
  assumes "0 < n" "ws \<noteq> []" "\<forall>c\<in>set ws. isspace c" "tx \<noteq> []"
  shows "\<exists>g2. heading_match (replicate n CHR ''*'' @ ws @ tx) = Some (replicate n CHR ''*'', g2)
           \<and> strip g2 = strip tx"
proof -
  let ?line = "replicate n CHR ''*'' @ ws @ tx"
  obtain w ws' where ws: "ws = w # ws'" using assms(2) by (cases ws) auto
  have w: "w \<noteq> CHR ''*''" using assms(3) ws by (auto dest: isspace_not_star)
  have tk: "takeWhile (\<lambda>c. c = CHR ''*'') ?line = replicate n CHR ''*''"
    using w ws by (induction n) auto
  have dr: "dropWhile (\<lambda>c. c = CHR ''*'') ?line = ws @ tx"
    using w ws by (induction n) auto
  have tw: "takeWhile isspace (ws @ tx) = ws @ takeWhile isspace tx"
    using assms(3) by (simp add: takeWhile_append2)
  have dw: "dropWhile isspace (ws @ tx) = dropWhile isspace tx"
    using assms(3) by (simp add: dropWhile_append2)
  show ?thesis
  proof (cases "dropWhile isspace tx = []")
    case False
    then show ?thesis using assms(1,2) tk dr tw dw
      by (simp add: heading_match_def Let_def strip_dropWhile)
  next
    case True
    then have allsp: "\<forall>c\<in>set tx. isspace c" by (simp add: dropWhile_eq_Nil_conv)
    then have tt: "takeWhile isspace tx = tx" by (simp add: takeWhile_eq_all_conv)
    have len: "2 \<le> length (ws @ tx)" using assms(2,4)
      by (cases ws; cases tx) auto
    have "isspace (last tx)" using allsp assms(4) by auto
    then have sl: "strip [last (ws @ tx)] = []" using assms(4) by (simp add: strip_all_space)
    have hm: "heading_match ?line = Some (replicate n CHR ''*'', [last (ws @ tx)])"
      unfolding heading_match_def Let_def tk dr tw dw True tt
      using assms(1,2) len by simp
    show ?thesis unfolding hm using sl allsp by (simp add: strip_all_space)
  qed
qed

lemma heading_line_iff:
  "heading_line isspace n line \<longleftrightarrow> (\<exists>g2. heading_match line = Some (replicate n CHR ''*'', g2))"
proof
  assume "heading_line isspace n line"
  then obtain ws tx where h: "0 < n" "line = replicate n CHR ''*'' @ ws @ tx" "ws \<noteq> []"
    "\<forall>c\<in>set ws. isspace c" "tx \<noteq> []" by (auto simp: heading_line_def)
  from heading_match_SomeI[OF h(1,3,4,5)] h(2)
  show "\<exists>g2. heading_match line = Some (replicate n CHR ''*'', g2)" by auto
next
  assume "\<exists>g2. heading_match line = Some (replicate n CHR ''*'', g2)"
  then obtain g2 where "heading_match line = Some (replicate n CHR ''*'', g2)" ..
  from heading_match_SomeD[OF this] show "heading_line isspace n line"
    unfolding heading_line_def by (cases n) auto
qed

lemma labelled_line_iff:
  "labelled_line isspace n label line \<longleftrightarrow>
     (\<exists>g2. heading_match line = Some (replicate n CHR ''*'', g2) \<and> strip g2 = label)"
proof
  assume "labelled_line isspace n label line"
  then obtain ws tx where h: "0 < n" "line = replicate n CHR ''*'' @ ws @ tx" "ws \<noteq> []"
    "\<forall>c\<in>set ws. isspace c" "tx \<noteq> []" "strip tx = label" by (auto simp: labelled_line_def)
  from heading_match_SomeI[OF h(1,3,4,5)] h(2,6)
  show "\<exists>g2. heading_match line = Some (replicate n CHR ''*'', g2) \<and> strip g2 = label" by auto
next
  assume "\<exists>g2. heading_match line = Some (replicate n CHR ''*'', g2) \<and> strip g2 = label"
  then obtain g2 where g: "heading_match line = Some (replicate n CHR ''*'', g2)" "strip g2 = label"
    by auto
  from heading_match_SomeD[OF g(1)] g(2) show "labelled_line isspace n label line"
    unfolding labelled_line_def by (cases n) auto
qed

lemma heading_upto_iff:
  "heading_upto isspace n line \<longleftrightarrow>
     (\<exists>stars g2. heading_match line = Some (stars, g2) \<and> length stars \<le> n)"
proof
  assume "heading_upto isspace n line"
  then obtain m where "m \<le> n" "heading_line isspace m line" by (auto simp: heading_upto_def)
  then show "\<exists>stars g2. heading_match line = Some (stars, g2) \<and> length stars \<le> n"
    by (auto simp: heading_line_iff)
next
  assume "\<exists>stars g2. heading_match line = Some (stars, g2) \<and> length stars \<le> n"
  then obtain stars g2 where g: "heading_match line = Some (stars, g2)" "length stars \<le> n" by auto
  from heading_match_SomeD[OF g(1)] have "stars = replicate (length stars) CHR ''*''" by auto
  with g have "heading_line isspace (length stars) line"
    by (metis heading_line_iff)
  with g(2) show "heading_upto isspace n line" by (auto simp: heading_upto_def)
qed

lemma find_end_line_spec:
  "n_lines = j + length ls \<Longrightarrow>
     j \<le> find_end_line n n_lines j ls \<and> find_end_line n n_lines j ls \<le> n_lines \<and>
     (\<forall>k<find_end_line n n_lines j ls - j. \<not> heading_upto isspace n (ls ! k)) \<and>
     (find_end_line n n_lines j ls < n_lines \<longrightarrow>
        heading_upto isspace n (ls ! (find_end_line n n_lines j ls - j)))"
proof (induction ls arbitrary: j)
  case Nil
  then show ?case by simp
next
  case (Cons l ls)
  show ?case
  proof (cases "heading_upto isspace n l")
    case True
    then have "find_end_line n n_lines j (l # ls) = j"
      by (auto simp: heading_upto_iff)
    with True Cons.prems show ?thesis by simp
  next
    case False
    then have eq: "find_end_line n n_lines j (l # ls) = find_end_line n n_lines (Suc j) ls"
      by (auto simp: heading_upto_iff split: option.splits)
    from Cons.prems have "n_lines = Suc j + length ls" by simp
    note IH = Cons.IH[OF this]
    let ?e = "find_end_line n n_lines (Suc j) ls"
    have a: "j \<le> ?e" "?e \<le> n_lines" using IH by auto
    have b: "\<forall>k<?e - j. \<not> heading_upto isspace n ((l # ls) ! k)"
    proof (intro allI impI)
      fix k assume k: "k < ?e - j"
      show "\<not> heading_upto isspace n ((l # ls) ! k)"
      proof (cases k)
        case 0
        then show ?thesis using False by simp
      next
        case (Suc k')
        with k have "k' < ?e - Suc j" by simp
        with IH Suc show ?thesis by simp
      qed
    qed
    have c: "?e < n_lines \<longrightarrow> heading_upto isspace n ((l # ls) ! (?e - j))"
    proof
      assume "?e < n_lines"
      with IH have h: "heading_upto isspace n (ls ! (?e - Suc j))" by simp
      have "Suc j \<le> ?e" using IH by simp
      then have "?e - j = Suc (?e - Suc j)" by simp
      with h show "heading_upto isspace n ((l # ls) ! (?e - j))" by simp
    qed
    show ?thesis unfolding eq using a b c by simp
  qed
qed

lemma find_heading_from_step:
  "find_heading_from ts th n_lines i (l # ls) =
     (if target_line ts th l then Some (i, find_end_line (length ts) n_lines (Suc i) ls)
      else find_heading_from ts th n_lines (Suc i) ls)"
  by (auto simp: target_line_def split: option.splits)

lemma find_heading_from_None:
  "find_heading_from ts th n_lines i ls = None \<longleftrightarrow> (\<forall>l\<in>set ls. \<not> target_line ts th l)"
  by (induction ls arbitrary: i) (simp_all add: find_heading_from_step del: find_heading_from.simps(2))

lemma find_heading_from_Some:
  "find_heading_from ts th n_lines i ls = Some (s, e) \<Longrightarrow>
     i \<le> s \<and> s - i < length ls \<and> target_line ts th (ls ! (s - i)) \<and>
     (\<forall>k<s - i. \<not> target_line ts th (ls ! k)) \<and>
     e = find_end_line (length ts) n_lines (Suc s) (drop (Suc (s - i)) ls)"
proof (induction ls arbitrary: i)
  case Nil
  then show ?case by simp
next
  case (Cons l ls)
  show ?case
  proof (cases "target_line ts th l")
    case True
    with Cons.prems show ?thesis by (auto simp: find_heading_from_step simp del: find_heading_from.simps(2))
  next
    case False
    with Cons.prems have "find_heading_from ts th n_lines (Suc i) ls = Some (s, e)"
      by (simp add: find_heading_from_step del: find_heading_from.simps(2))
    note IH = Cons.IH[OF this]
    then have si: "Suc i \<le> s" by simp
    then have eq: "s - i = Suc (s - Suc i)" by simp
    have "\<forall>k<s - i. \<not> target_line ts th ((l # ls) ! k)"
    proof (intro allI impI)
      fix k assume k: "k < s - i"
      show "\<not> target_line ts th ((l # ls) ! k)"
      proof (cases k)
        case 0
        then show ?thesis using False by simp
      next
        case (Suc k')
        with k eq have "k' < s - Suc i" by simp
        with IH Suc show ?thesis by simp
      qed
    qed
    with IH si show ?thesis unfolding eq by simp
  qed
qed

text \<open>
  C1 (amended). For every document text, label and positive level: when
  \<^const>\<open>find_heading_in_content\<close> returns \<open>None\<close>, no line consists of exactly
  \<open>level\<close> stars, one or more white-space characters and a text that trims to the label;
  when it returns \<open>Some (s, e)\<close>, line \<open>s\<close> is the topmost such line, \<open>e\<close> is the index
  of the first line after \<open>s\<close> that is a heading with at most \<open>level\<close> stars, or the
  line count when there is none, and \<open>s < e \<le>\<close> line count. The separator between the
  stars and the text is any white space (\<^verbatim>\<open>\s+\<close>), not only the space character.
\<close>

theorem find_heading_in_content_locates:
  assumes "0 < level"
  shows "case find_heading_in_content content label level of
           None \<Rightarrow> \<forall>l\<in>set (split_nl content). \<not> labelled_line isspace (nat level) label l
         | Some (s, e) \<Rightarrow>
             s < length (split_nl content) \<and>
             labelled_line isspace (nat level) label (split_nl content ! s) \<and>
             (\<forall>k<s. \<not> labelled_line isspace (nat level) label (split_nl content ! k)) \<and>
             s < e \<and> e \<le> length (split_nl content) \<and>
             (\<forall>k. s < k \<and> k < e \<longrightarrow> \<not> heading_upto isspace (nat level) (split_nl content ! k)) \<and>
             (e < length (split_nl content) \<longrightarrow>
                heading_upto isspace (nat level) (split_nl content ! e))"
proof -
  let ?ls = "split_nl content"
  let ?ts = "star_string level"
  have tl: "target_line ?ts label l \<longleftrightarrow> labelled_line isspace (nat level) label l" for l
    by (simp add: target_line_def labelled_line_iff star_string_def)
  have len: "length ?ts = nat level" by (simp add: star_string_def)
  show ?thesis
  proof (cases "find_heading_in_content content label level")
    case None
    then have "\<forall>l\<in>set ?ls. \<not> labelled_line isspace (nat level) label l"
      by (simp add: find_heading_in_content_def Let_def find_heading_from_None tl)
    then show ?thesis unfolding None by simp
  next
    case (Some p)
    obtain s e where p: "p = (s, e)" by (cases p)
    from Some p have "find_heading_from ?ts label (length ?ls) 0 ?ls = Some (s, e)"
      by (simp add: find_heading_in_content_def Let_def)
    from find_heading_from_Some[OF this]
    have s: "s < length ?ls" and t: "target_line ?ts label (?ls ! s)"
      and f: "\<forall>k<s. \<not> target_line ?ts label (?ls ! k)"
      and e: "e = find_end_line (nat level) (length ?ls) (Suc s) (drop (Suc s) ?ls)"
      by (simp_all add: len)
    have "length ?ls = Suc s + length (drop (Suc s) ?ls)" using s by simp
    from find_end_line_spec[OF this, of "nat level", folded e]
    have e1: "Suc s \<le> e" and e2: "e \<le> length ?ls"
      and e3: "\<forall>k<e - Suc s. \<not> heading_upto isspace (nat level) (drop (Suc s) ?ls ! k)"
      and e4: "e < length ?ls \<longrightarrow> heading_upto isspace (nat level) (drop (Suc s) ?ls ! (e - Suc s))"
      by blast+
    have b: "\<forall>k. s < k \<and> k < e \<longrightarrow> \<not> heading_upto isspace (nat level) (?ls ! k)"
    proof (intro allI impI)
      fix k assume k: "s < k \<and> k < e"
      then have "k - Suc s < e - Suc s" by arith
      with e3 have "\<not> heading_upto isspace (nat level) (drop (Suc s) ?ls ! (k - Suc s))" by simp
      moreover have "drop (Suc s) ?ls ! (k - Suc s) = ?ls ! k" using k e2 by simp
      ultimately show "\<not> heading_upto isspace (nat level) (?ls ! k)" by simp
    qed
    have c: "e < length ?ls \<longrightarrow> heading_upto isspace (nat level) (?ls ! e)"
    proof
      assume l: "e < length ?ls"
      with e4 have "heading_upto isspace (nat level) (drop (Suc s) ?ls ! (e - Suc s))" by simp
      moreover have "drop (Suc s) ?ls ! (e - Suc s) = ?ls ! e" using e1 l by simp
      ultimately show "heading_upto isspace (nat level) (?ls ! e)" by simp
    qed
    show ?thesis unfolding Some p using s t f e1 e2 b c by (simp add: tl)
  qed
qed

theorem find_heading_in_content_locates_witness:
  "(0::int) < 1 \<and>
   find_heading_in_content ''* A\<newline>body\<newline>** B\<newline>* C'' ''A'' 1 = Some (0, 3) \<and>
   labelled_line isspace 1 ''A'' (split_nl ''* A\<newline>body\<newline>** B\<newline>* C'' ! 0) \<and>
   heading_upto isspace 1 (split_nl ''* A\<newline>body\<newline>** B\<newline>* C'' ! 3)"
proof -
  have r: "find_heading_in_content ''* A\<newline>body\<newline>** B\<newline>* C'' ''A'' 1 = Some (0, 3)"
    by code_simp
  have n: "split_nl ''* A\<newline>body\<newline>** B\<newline>* C'' = [''* A'', ''body'', ''** B'', ''* C'']"
    by code_simp
  show ?thesis
    using find_heading_in_content_locates [of 1 "''* A\<newline>body\<newline>** B\<newline>* C''" "''A''"]
    unfolding r n by simp
qed

text \<open>
  The claim as stated, with the space character as the only separator, fails on a
  heading whose stars are followed by a tab: the locator finds it, although the line
  does not consist of stars, spaces and the label.
\<close>

theorem find_heading_in_content_tab_counterexample:
  "find_heading_in_content [CHR ''*'', CHR 0x09, CHR ''A''] ''A'' 1 = Some (0, 1) \<and>
   split_nl [CHR ''*'', CHR 0x09, CHR ''A''] = [[CHR ''*'', CHR 0x09, CHR ''A'']] \<and>
   \<not> labelled_line is_space 1 ''A'' [CHR ''*'', CHR 0x09, CHR ''A'']"
proof -
  have a: "find_heading_in_content [CHR ''*'', CHR 0x09, CHR ''A''] ''A'' 1 = Some (0, 1)"
    by code_simp
  have b: "split_nl [CHR ''*'', CHR 0x09, CHR ''A''] = [[CHR ''*'', CHR 0x09, CHR ''A'']]"
    by code_simp
  have c: "\<not> labelled_line is_space 1 ''A'' [CHR ''*'', CHR 0x09, CHR ''A'']"
  proof
    assume "labelled_line is_space 1 ''A'' [CHR ''*'', CHR 0x09, CHR ''A'']"
    then obtain ws tx where h: "[CHR ''*'', CHR 0x09, CHR ''A''] = CHR ''*'' # ws @ tx"
      "ws \<noteq> []" "\<forall>c\<in>set ws. is_space c"
      by (auto simp: labelled_line_def)
    then obtain w ws' where "ws = w # ws'" by (cases ws) auto
    with h show False by (auto simp: is_space_def)
  qed
  from a b c show ?thesis by blast
qed

section \<open>Properties of the notification scheduler\<close>

lemma sent_notify_once:
  "sent_notifications (notify_once raises key message st) = insert key (sent_notifications st)"
  by (auto simp: notify_once_def)

lemma check_schedule_as_bucket:
  "check_schedule_notifications raises it t now st =
     (case schedule_bucket it t now of None \<Rightarrow> st | Some (key, message) \<Rightarrow> notify_once raises key message st)"
  by (simp add: check_schedule_notifications_def schedule_bucket_def Let_def)

lemma check_deadline_as_bucket:
  "check_deadline_notifications raises it t now st =
     (case deadline_bucket it t now of None \<Rightarrow> st | Some (key, message) \<Rightarrow> notify_once raises key message st)"
  by (simp add: check_deadline_notifications_def deadline_bucket_def Let_def)

lemma sent_check_schedule:
  "sent_notifications (check_schedule_notifications raises it t now st) =
     (let tm = total_seconds t now / 60; nid = schedule_notification_id it t
      in if 90 \<le> tm \<and> tm \<le> 120 then insert (nid @ ''_2h'') (sent_notifications st)
         else if 60 \<le> tm \<and> tm < 90 then insert (nid @ ''_90m'') (sent_notifications st)
         else if 45 \<le> tm \<and> tm < 60 then insert (nid @ ''_1h'') (sent_notifications st)
         else if 30 \<le> tm \<and> tm < 45 then insert (nid @ ''_45m'') (sent_notifications st)
         else if 15 \<le> tm \<and> tm < 30 then insert (nid @ ''_30m'') (sent_notifications st)
         else if 0 \<le> tm \<and> tm < 15 then insert (nid @ ''_15m'') (sent_notifications st)
         else sent_notifications st)"
  by (simp add: check_schedule_notifications_def Let_def sent_notify_once)

lemma sent_check_deadline:
  "sent_notifications (check_deadline_notifications raises it t now st) =
     (let th = total_seconds t now / 3600; nid = deadline_notification_id it t
      in if 6 \<le> th \<and> th \<le> 8 then insert (nid @ ''_today'') (sent_notifications st)
         else sent_notifications st)"
  by (simp add: check_deadline_notifications_def Let_def sent_notify_once)

lemma sent_send_notification:
  "sent_notifications (send_notification_to_subscribers raises message st) = sent_notifications st"
  by (simp add: send_notification_to_subscribers_def split: prod.splits bool.splits)

lemma notify_once_recorded:
  "key \<in> sent_notifications st \<Longrightarrow> notify_once raises key message st = st"
  by (simp add: notify_once_def)

lemma sent_check_schedule_mono:
  "sent_notifications st \<subseteq> sent_notifications (check_schedule_notifications raises it t now st)"
  by (auto simp: check_schedule_as_bucket sent_notify_once split: option.splits)

lemma sent_check_deadline_mono:
  "sent_notifications st \<subseteq> sent_notifications (check_deadline_notifications raises it t now st)"
  by (auto simp: check_deadline_as_bucket sent_notify_once split: option.splits)

lemma sent_fold_scheduled_mono:
  "sent_notifications st \<subseteq> sent_notifications (fold (check_scheduled_item raises now) its st)"
proof (induction its arbitrary: st)
  case Nil
  then show ?case by simp
next
  case (Cons it its)
  have "sent_notifications st \<subseteq> sent_notifications (check_scheduled_item raises now it st)"
    using sent_check_schedule_mono by (simp add: check_scheduled_item_def split: option.splits)
  also have "\<dots> \<subseteq> sent_notifications (fold (check_scheduled_item raises now) its
      (check_scheduled_item raises now it st))"
    by (rule Cons.IH)
  finally show ?case by simp
qed

lemma sent_fold_deadline_mono:
  "sent_notifications st \<subseteq> sent_notifications (fold (check_deadline_item raises now) its st)"
proof (induction its arbitrary: st)
  case Nil
  then show ?case by simp
next
  case (Cons it its)
  have "sent_notifications st \<subseteq> sent_notifications (check_deadline_item raises now it st)"
    using sent_check_deadline_mono by (simp add: check_deadline_item_def split: option.splits)
  also have "\<dots> \<subseteq> sent_notifications (fold (check_deadline_item raises now) its
      (check_deadline_item raises now it st))"
    by (rule Cons.IH)
  finally show ?case by simp
qed

lemma sent_schedule_deadline_notifications_step_mono:
  "sent_notifications st
     \<subseteq> sent_notifications (schedule_deadline_notifications_step raises current_time ag now st)"
proof (cases "is_notification_time st current_time")
  case True
  have "sent_notifications st
          \<subseteq> sent_notifications (fold (check_scheduled_item raises now) (schedules_today ag) st)"
    by (rule sent_fold_scheduled_mono)
  also have "\<dots> \<subseteq> sent_notifications (fold (check_deadline_item raises now) (deadlines_today ag)
      (fold (check_scheduled_item raises now) (schedules_today ag) st))"
    by (rule sent_fold_deadline_mono)
  finally show ?thesis using True by (simp add: schedule_deadline_notifications_step_def)
next
  case False
  then show ?thesis by (simp add: schedule_deadline_notifications_step_def)
qed

lemma sent_handle_event_mono:
  "sent_notifications st \<subseteq> sent_notifications (handle_event ev st)"
  by (cases ev)
     (simp_all add: sent_schedule_deadline_notifications_step_mono sent_check_schedule_mono
        sent_check_deadline_mono
        sent_send_notification)

lemma sent_run_events_mono:
  "sent_notifications st \<subseteq> sent_notifications (run_events evs st)"
proof (induction evs arbitrary: st)
  case Nil
  then show ?case by (simp add: run_events_def)
next
  case (Cons ev evs)
  have "sent_notifications st \<subseteq> sent_notifications (handle_event ev st)"
    by (rule sent_handle_event_mono)
  also have "\<dots> \<subseteq> sent_notifications (run_events evs (handle_event ev st))"
    by (rule Cons.IH)
  finally show ?case by (simp add: run_events_def)
qed

lemma sample_minutes_120:
  "total_seconds (combine sample_day 9 0) (combine sample_day 7 0) / 60 = 120"
  by (simp add: total_seconds_def micros_def combine_def)

lemma sample_minutes_100:
  "total_seconds (combine sample_day 9 0)
     \<lparr>dt_date = sample_day, hour = 7, minute = 20, second = 0, microsecond = 0\<rparr> / 60 = 100"
  by (simp add: total_seconds_def micros_def combine_def)

lemma sample_hours_7:
  "total_seconds (combine sample_day 23 59) (combine sample_day 16 59) / 3600 = 7"
  by (simp add: total_seconds_def micros_def combine_def)

text \<open>
  C2 (amended). Starting from an empty ledger, a schedule check records the key
  \<open>2h\<close> iff \<open>total_minutes\<close> is in \<open>[90, 120]\<close> (120 included), \<open>90m\<close> iff in
  \<open>[60, 90)\<close>, \<open>1h\<close> iff in \<open>[45, 60)\<close>, \<open>45m\<close> iff in \<open>[30, 45)\<close>, \<open>30m\<close> iff in
  \<open>[15, 30)\<close>, \<open>15m\<close> iff in \<open>[0, 15)\<close>, and no key iff \<open>total_minutes\<close> is negative or
  above 120; for \<open>total_minutes\<close> in \<open>[0, 120]\<close> exactly one key is recorded. A deadline
  check records the key \<open>today\<close> iff \<open>total_hours\<close> is in \<open>[6, 8]\<close>.
\<close>

theorem threshold_ladder:
  assumes "sent_notifications st = {}"
  shows "(schedule_notification_id it t @ ''_2h''
            \<in> sent_notifications (check_schedule_notifications raises it t now st)
          \<longleftrightarrow> 90 \<le> total_seconds t now / 60 \<and> total_seconds t now / 60 \<le> 120) \<and>
         (schedule_notification_id it t @ ''_90m''
            \<in> sent_notifications (check_schedule_notifications raises it t now st)
          \<longleftrightarrow> 60 \<le> total_seconds t now / 60 \<and> total_seconds t now / 60 < 90) \<and>
         (schedule_notification_id it t @ ''_1h''
            \<in> sent_notifications (check_schedule_notifications raises it t now st)
          \<longleftrightarrow> 45 \<le> total_seconds t now / 60 \<and> total_seconds t now / 60 < 60) \<and>
         (schedule_notification_id it t @ ''_45m''
            \<in> sent_notifications (check_schedule_notifications raises it t now st)
          \<longleftrightarrow> 30 \<le> total_seconds t now / 60 \<and> total_seconds t now / 60 < 45) \<and>
         (schedule_notification_id it t @ ''_30m''
            \<in> sent_notifications (check_schedule_notifications raises it t now st)
          \<longleftrightarrow> 15 \<le> total_seconds t now / 60 \<and> total_seconds t now / 60 < 30) \<and>
         (schedule_notification_id it t @ ''_15m''
            \<in> sent_notifications (check_schedule_notifications raises it t now st)
          \<longleftrightarrow> 0 \<le> total_seconds t now / 60 \<and> total_seconds t now / 60 < 15) \<and>
         (sent_notifications (check_schedule_notifications raises it t now st) = {}
          \<longleftrightarrow> total_seconds t now / 60 < 0 \<or> 120 < total_seconds t now / 60) \<and>
         (0 \<le> total_seconds t now / 60 \<and> total_seconds t now / 60 \<le> 120
          \<longrightarrow> card (sent_notifications (check_schedule_notifications raises it t now st)) = 1) \<and>
         (deadline_notification_id it d @ ''_today''
            \<in> sent_notifications (check_deadline_notifications raises it d now' st)
          \<longleftrightarrow> 6 \<le> total_seconds d now' / 3600 \<and> total_seconds d now' / 3600 \<le> 8)"
  unfolding sent_check_schedule sent_check_deadline Let_def assms
  by auto

theorem threshold_ladder_witness:
  "sent_notifications sample_bot = {} \<and>
   schedule_notification_id sample_item (combine sample_day 9 0) @ ''_2h''
     \<in> sent_notifications
         (check_schedule_notifications (\<lambda>mto mbody. False) sample_item (combine sample_day 9 0)
            \<lparr>dt_date = sample_day, hour = 7, minute = 20, second = 0, microsecond = 0\<rparr>
            sample_bot) \<and>
   deadline_notification_id sample_item (combine sample_day 23 59) @ ''_today''
     \<in> sent_notifications
         (check_deadline_notifications (\<lambda>mto mbody. False) sample_item (combine sample_day 23 59)
            (combine sample_day 16 59) sample_bot)"
proof -
  have e: "sent_notifications sample_bot = {}" by (simp add: sample_bot_def)
  show ?thesis
    using threshold_ladder [OF e, of sample_item "combine sample_day 9 0" "\<lambda>mto mbody. False"
        "\<lparr>dt_date = sample_day, hour = 7, minute = 20, second = 0, microsecond = 0\<rparr>"
        "combine sample_day 23 59" "combine sample_day 16 59"]
    unfolding sample_minutes_100 sample_hours_7 using e by simp
qed

text \<open>
  The claim as stated excludes 120 from the top bucket. At 07:00 an item scheduled for
  09:00 of the same day is exactly 120 minutes away, and the check records the \<open>2h\<close>
  key.
\<close>

theorem threshold_ladder_120_counterexample:
  "total_seconds (combine sample_day 9 0) (combine sample_day 7 0) / 60 = 120 \<and>
   schedule_notification_id sample_item (combine sample_day 9 0) @ ''_2h''
     \<in> sent_notifications
         (check_schedule_notifications (\<lambda>mto mbody. False) sample_item (combine sample_day 9 0)
            (combine sample_day 7 0) sample_bot)"
  unfolding sent_check_schedule Let_def sample_minutes_120 by simp

lemma sample_bucket_30m:
  "schedule_bucket sample_item (combine sample_day 9 0)
     \<lparr>dt_date = sample_day, hour = 8, minute = 40, second = 0, microsecond = 0\<rparr> =
   Some (schedule_notification_id sample_item (combine sample_day 9 0) @ ''_30m'',
         ''Appointment in ~30 minutes:\<newline>'' @ item_line sample_item)"
  by (simp add: schedule_bucket_def Let_def total_seconds_def micros_def combine_def)

lemma sample_bucket_30m_later:
  "schedule_bucket sample_item (combine sample_day 9 0)
     \<lparr>dt_date = sample_day, hour = 8, minute = 41, second = 0, microsecond = 0\<rparr> =
   Some (schedule_notification_id sample_item (combine sample_day 9 0) @ ''_30m'',
         ''Appointment in ~30 minutes:\<newline>'' @ item_line sample_item)"
  by (simp add: schedule_bucket_def Let_def total_seconds_def micros_def combine_def)

lemma notified_send_notification:
  "notified (send_notification_to_subscribers raises message st) = notified st"
  by (simp add: send_notification_to_subscribers_def split: prod.splits bool.splits)

lemma keyed_once_notify_once:
  "keyed_once st \<Longrightarrow> keyed_once (notify_once raises key message st)"
  by (auto simp: keyed_once_def notify_once_def notified_send_notification sent_send_notification)

lemma keyed_once_check_schedule:
  "keyed_once st \<Longrightarrow> keyed_once (check_schedule_notifications raises it t now st)"
  by (auto simp: check_schedule_as_bucket keyed_once_notify_once split: option.splits)

lemma keyed_once_check_deadline:
  "keyed_once st \<Longrightarrow> keyed_once (check_deadline_notifications raises it t now st)"
  by (auto simp: check_deadline_as_bucket keyed_once_notify_once split: option.splits)

lemma keyed_once_fold:
  "(\<And>x s. keyed_once s \<Longrightarrow> keyed_once (f x s)) \<Longrightarrow> keyed_once st \<Longrightarrow> keyed_once (fold f xs st)"
  by (induction xs arbitrary: st) auto

lemma keyed_once_step:
  assumes "keyed_once st"
  shows "keyed_once (schedule_deadline_notifications_step raises current_time ag now st)"
proof -
  have a: "keyed_once (check_scheduled_item raises now x s)" if "keyed_once s" for x s
    using that by (simp add: check_scheduled_item_def keyed_once_check_schedule split: option.splits)
  have b: "keyed_once (check_deadline_item raises now x s)" if "keyed_once s" for x s
    using that by (simp add: check_deadline_item_def keyed_once_check_deadline split: option.splits)
  have "keyed_once (fold (check_scheduled_item raises now) (schedules_today ag) st)"
    using a assms by (rule keyed_once_fold)
  then have "keyed_once (fold (check_deadline_item raises now) (deadlines_today ag)
      (fold (check_scheduled_item raises now) (schedules_today ag) st))"
    using b by (rule keyed_once_fold[rotated])
  with assms show ?thesis by (simp add: schedule_deadline_notifications_step_def)
qed

lemma keyed_once_send_notification:
  "keyed_once st \<Longrightarrow> keyed_once (send_notification_to_subscribers raises message st)"
  by (simp add: keyed_once_def notified_send_notification sent_send_notification)

lemma keyed_once_handle_event:
  "keyed_once st \<Longrightarrow> keyed_once (handle_event ev st)"
  by (cases ev)
     (simp_all add: keyed_once_step keyed_once_check_schedule keyed_once_check_deadline
        keyed_once_send_notification, simp_all add: keyed_once_def)

lemma keyed_once_run_events:
  "keyed_once st \<Longrightarrow> keyed_once (run_events evs st)"
  unfolding run_events_def by (rule keyed_once_fold) (rule keyed_once_handle_event)

text \<open>
  C3 (amended). The key of a notification holds the file name, the title, the scheduled
  time (for a deadline its date) and the bucket. Once a key is in
  \<open>sent_notifications\<close>, it stays there through whatever the bot does next, and a later
  schedule check or deadline check that computes the same key leaves the bot as it is:
  nothing is sent. In a process that starts with an empty history, whatever happens, no
  two broadcasts of the checks have the same key, and the key of each is in
  \<open>sent_notifications\<close>: at most one send per key. An item whose date has changed has
  another key.
\<close>

theorem no_resend_after_recorded:
  assumes "k \<in> sent_notifications st"
  shows "k \<in> sent_notifications (run_events evs st) \<and>
         (schedule_bucket it t now = Some (k, m) \<longrightarrow>
            check_schedule_notifications raises it t now (run_events evs st) = run_events evs st) \<and>
         (deadline_bucket it' t' now' = Some (k, m') \<longrightarrow>
            check_deadline_notifications raises it' t' now' (run_events evs st) = run_events evs st) \<and>
         (notified st0 = [] \<longrightarrow>
            distinct (map fst (notified (run_events evs' st0))) \<and>
            fst ` set (notified (run_events evs' st0)) \<subseteq> sent_notifications (run_events evs' st0))"
proof -
  have k: "k \<in> sent_notifications (run_events evs st)"
    using assms sent_run_events_mono by blast
  have once: "keyed_once (run_events evs' st0)" if "notified st0 = []"
    by (rule keyed_once_run_events) (simp add: keyed_once_def that)
  show ?thesis
    using k once
    by (auto simp: check_schedule_as_bucket check_deadline_as_bucket notify_once_recorded
        keyed_once_def)
qed

theorem no_resend_after_recorded_witness:
  "schedule_notification_id sample_item (combine sample_day 9 0) @ ''_30m''
     \<in> sent_notifications
         (check_schedule_notifications (\<lambda>mto mbody. False) sample_item (combine sample_day 9 0)
            \<lparr>dt_date = sample_day, hour = 8, minute = 40, second = 0, microsecond = 0\<rparr>
            sample_bot) \<and>
   check_schedule_notifications (\<lambda>mto mbody. False) sample_item (combine sample_day 9 0)
     \<lparr>dt_date = sample_day, hour = 8, minute = 41, second = 0, microsecond = 0\<rparr>
     (run_events [Subscribe ''bob@example.org'' [''bob@example.org'', ''bad@@jid'', ''alice@example.org'']]
        (check_schedule_notifications (\<lambda>mto mbody. False) sample_item (combine sample_day 9 0)
           \<lparr>dt_date = sample_day, hour = 8, minute = 40, second = 0, microsecond = 0\<rparr>
           sample_bot)) =
   run_events [Subscribe ''bob@example.org'' [''bob@example.org'', ''bad@@jid'', ''alice@example.org'']]
     (check_schedule_notifications (\<lambda>mto mbody. False) sample_item (combine sample_day 9 0)
        \<lparr>dt_date = sample_day, hour = 8, minute = 40, second = 0, microsecond = 0\<rparr>
        sample_bot) \<and>
   notified sample_bot = [] \<and>
   distinct (map fst (notified (run_events
     [Schedule_check (\<lambda>mto mbody. False) sample_item (combine sample_day 9 0)
        \<lparr>dt_date = sample_day, hour = 8, minute = 40, second = 0, microsecond = 0\<rparr>,
      Schedule_check (\<lambda>mto mbody. False) sample_item (combine sample_day 9 0)
        \<lparr>dt_date = sample_day, hour = 8, minute = 41, second = 0, microsecond = 0\<rparr>]
     sample_bot)))"
proof -
  let ?st = "check_schedule_notifications (\<lambda>mto mbody. False) sample_item (combine sample_day 9 0)
     \<lparr>dt_date = sample_day, hour = 8, minute = 40, second = 0, microsecond = 0\<rparr> sample_bot"
  have k: "schedule_notification_id sample_item (combine sample_day 9 0) @ ''_30m''
             \<in> sent_notifications ?st"
    by (simp add: check_schedule_as_bucket sample_bucket_30m sent_notify_once)
  have n: "notified sample_bot = []" by (simp add: sample_bot_def)
  from no_resend_after_recorded [OF k, of "[Subscribe ''bob@example.org'' [''bob@example.org'', ''bad@@jid'', ''alice@example.org'']]" sample_item
      "combine sample_day 9 0"
      "\<lparr>dt_date = sample_day, hour = 8, minute = 41, second = 0, microsecond = 0\<rparr>"
      "''Appointment in ~30 minutes:\<newline>'' @ item_line sample_item" "\<lambda>mto mbody. False"
      _ _ _ _ sample_bot]
    sample_bucket_30m_later k n
  show ?thesis by blast
qed

lemma sample_keys:
  "schedule_notification_id sample_item (combine sample_day 9 0) @ ''_30m''
     = ''schedule_a.org_Meet_2024-01-05T09:00:00_30m''"
  "schedule_notification_id moved_item (combine next_day 9 0) @ ''_30m''
     = ''schedule_a.org_Meet_2024-01-06T09:00:00_30m''"
  "item_line sample_item = ''Meet (A)''" "item_line moved_item = ''Meet (A)''"
  by code_simp+

lemma moved_bucket_30m:
  "schedule_bucket moved_item (combine next_day 9 0)
     \<lparr>dt_date = next_day, hour = 8, minute = 40, second = 0, microsecond = 0\<rparr> =
   Some (schedule_notification_id moved_item (combine next_day 9 0) @ ''_30m'',
         ''Appointment in ~30 minutes:\<newline>'' @ item_line moved_item)"
  by (simp add: schedule_bucket_def Let_def total_seconds_def micros_def combine_def)

lemma notify_once_fields:
  "notification_start (notify_once raises key message st) = notification_start st"
  "notification_end (notify_once raises key message st) = notification_end st"
  "notified (notify_once raises key message st) =
     (if key \<in> sent_notifications st then notified st else notified st @ [(key, message)])"
  by (simp_all add: notify_once_def send_notification_to_subscribers_def
      split: prod.splits bool.splits)

lemma watch_one_scheduled:
  assumes "is_notification_time st current_time" and "scheduled it = Some d"
    and "schedule_bucket it (combine d 9 0) now = Some (key, message)"
  shows "schedule_deadline_notifications_step raises current_time
           \<lparr>schedules_today = [it], deadlines_today = [], todos = tds\<rparr> now st
         = notify_once raises key message st"
  using assms
  by (simp add: schedule_deadline_notifications_step_def check_scheduled_item_def
      check_schedule_as_bucket)

text \<open>
  The claim as stated counts the sends per item and bucket, an item being a file name
  and a title. The key also holds the scheduled time: an item that is notified in the
  30m bucket on 2024-01-05 and is then moved to the next day is notified in the 30m
  bucket again, with the same text, by the pass of 08:40 on 2024-01-06.
\<close>

theorem same_item_sent_twice_counterexample:
  "file_name moved_item = file_name sample_item \<and> title moved_item = title sample_item \<and>
   notified (run_events
     [Watch (\<lambda>mto mbody. False)
        \<lparr>dt_date = sample_day, hour = 8, minute = 40, second = 0, microsecond = 0\<rparr>
        \<lparr>schedules_today = [sample_item], deadlines_today = [], todos = (\<lambda>k. [])\<rparr>
        \<lparr>dt_date = sample_day, hour = 8, minute = 40, second = 0, microsecond = 0\<rparr>,
      Watch (\<lambda>mto mbody. False)
        \<lparr>dt_date = next_day, hour = 8, minute = 40, second = 0, microsecond = 0\<rparr>
        \<lparr>schedules_today = [moved_item], deadlines_today = [], todos = (\<lambda>k. [])\<rparr>
        \<lparr>dt_date = next_day, hour = 8, minute = 40, second = 0, microsecond = 0\<rparr>]
     sample_bot) =
   [(''schedule_a.org_Meet_2024-01-05T09:00:00_30m'', ''Appointment in ~30 minutes:\<newline>Meet (A)''),
    (''schedule_a.org_Meet_2024-01-06T09:00:00_30m'', ''Appointment in ~30 minutes:\<newline>Meet (A)'')]"
proof -
  let ?r = "\<lambda>mto mbody. False :: bool"
  let ?now1 = "\<lparr>dt_date = sample_day, hour = 8, minute = 40, second = 0, microsecond = 0\<rparr>"
  let ?now2 = "\<lparr>dt_date = next_day, hour = 8, minute = 40, second = 0, microsecond = 0\<rparr>"
  let ?k1 = "''schedule_a.org_Meet_2024-01-05T09:00:00_30m''"
  let ?k2 = "''schedule_a.org_Meet_2024-01-06T09:00:00_30m''"
  let ?m = "''Appointment in ~30 minutes:\<newline>Meet (A)''"
  let ?st1 = "notify_once ?r ?k1 ?m sample_bot"
  have f: "file_name moved_item = file_name sample_item \<and> title moved_item = title sample_item"
    by (simp add: moved_item_def)
  have s1: "scheduled sample_item = Some sample_day" by (simp add: sample_item_def)
  have s2: "scheduled moved_item = Some next_day" by (simp add: moved_item_def)
  have b1: "schedule_bucket sample_item (combine sample_day 9 0) ?now1 = Some (?k1, ?m)"
    using sample_bucket_30m by (simp add: sample_keys)
  have b2: "schedule_bucket moved_item (combine next_day 9 0) ?now2 = Some (?k2, ?m)"
    using moved_bucket_30m by (simp add: sample_keys)
  have w1: "is_notification_time sample_bot ?now1"
    by (simp add: is_notification_time_def time_of_day_def sample_bot_def)
  have w2: "is_notification_time ?st1 ?now2"
    by (simp add: is_notification_time_def time_of_day_def notify_once_fields sample_bot_def)
  have e1: "schedule_deadline_notifications_step ?r ?now1
      \<lparr>schedules_today = [sample_item], deadlines_today = [], todos = (\<lambda>k. [])\<rparr> ?now1 sample_bot
      = ?st1"
    using w1 s1 b1 by (rule watch_one_scheduled)
  have e2: "schedule_deadline_notifications_step ?r ?now2
      \<lparr>schedules_today = [moved_item], deadlines_today = [], todos = (\<lambda>k. [])\<rparr> ?now2 ?st1
      = notify_once ?r ?k2 ?m ?st1"
    using w2 s2 b2 by (rule watch_one_scheduled)
  have n0: "notified sample_bot = []" "sent_notifications sample_bot = {}"
    by (simp_all add: sample_bot_def)
  have n1: "notified ?st1 = [(?k1, ?m)]" "sent_notifications ?st1 = {?k1}"
    unfolding notify_once_fields sent_notify_once n0 by simp_all
  have ne: "?k2 \<noteq> ?k1" by simp
  have n2: "notified (notify_once ?r ?k2 ?m ?st1) = [(?k1, ?m), (?k2, ?m)]"
    using notify_once_fields(3)[of ?r ?k2 ?m ?st1] ne unfolding n1 by simp
  have "run_events
     [Watch ?r ?now1 \<lparr>schedules_today = [sample_item], deadlines_today = [], todos = (\<lambda>k. [])\<rparr> ?now1,
      Watch ?r ?now2 \<lparr>schedules_today = [moved_item], deadlines_today = [], todos = (\<lambda>k. [])\<rparr> ?now2]
     sample_bot = notify_once ?r ?k2 ?m ?st1"
    by (simp only: run_events_def fold_simps handle_event.simps e1 e2 id_apply comp_apply)
  with n2 f show ?thesis by simp
qed

lemma send_loop_no_failure:
  "\<forall>s\<in>set subs. \<not> raises s message \<Longrightarrow>
     send_loop raises message subs made = (made @ map (\<lambda>s. (s, message)) subs, False)"
  by (induction subs arbitrary: made) auto

lemma send_loop_first_failure:
  "\<forall>s\<in>set before. \<not> raises s message \<Longrightarrow> raises bad message \<Longrightarrow>
     send_loop raises message (before @ bad # rest) made =
       (made @ map (\<lambda>s. (s, message)) (before @ [bad]), True)"
  by (induction before arbitrary: made) auto

text \<open>
  C5 fails on the code. The \<^verbatim>\<open>try\<close> of \<^verbatim>\<open>send_notification_to_subscribers\<close> encloses the
  whole loop, so the first call of \<^verbatim>\<open>send_message\<close> that raises ends the broadcast:
  with the subscribers visited in the order \<open>bad@@jid\<close>, \<open>alice@example.org\<close> and a
  transport that raises for \<open>bad@@jid\<close>, no send is attempted for \<open>alice@example.org\<close>.
\<close>

theorem broadcast_stops_at_first_failure:
  "attempts (send_notification_to_subscribers (\<lambda>mto mbody. mto = ''bad@@jid'') ''hello'' sample_bot)
     = [(''bad@@jid'', ''hello'')] \<and>
   (''alice@example.org'', ''hello'')
     \<notin> set (attempts
         (send_notification_to_subscribers (\<lambda>mto mbody. mto = ''bad@@jid'') ''hello'' sample_bot)) \<and>
   errors (send_notification_to_subscribers (\<lambda>mto mbody. mto = ''bad@@jid'') ''hello'' sample_bot)
     = [''Error sending notification'']"
  by (simp add: send_notification_to_subscribers_def sample_bot_def)

section \<open>Properties of the outline editor and the title\<close>

lemma join_nl_Cons: "xs \<noteq> [] \<Longrightarrow> join_nl (x # xs) = x @ CHR 0x0A # join_nl xs"
  by (cases xs) auto

lemma join_nl_append:
  "xs \<noteq> [] \<Longrightarrow> ys \<noteq> [] \<Longrightarrow> join_nl (xs @ ys) = join_nl xs @ CHR 0x0A # join_nl ys"
proof (induction xs)
  case Nil
  then show ?case by simp
next
  case (Cons x xs)
  show ?case
  proof (cases "xs = []")
    case True
    then show ?thesis using Cons.prems by (simp add: join_nl_Cons)
  next
    case False
    then show ?thesis using Cons by (simp add: join_nl_Cons)
  qed
qed

lemma split_from_not_Nil: "split_from cur s \<noteq> []"
  by (induction s arbitrary: cur) auto

lemma split_nl_not_Nil: "split_nl s \<noteq> []"
  by (simp add: split_nl_def split_from_not_Nil)

lemma join_split_from: "join_nl (split_from cur s) = cur @ s"
  by (induction s arbitrary: cur) (auto simp: join_nl_Cons split_from_not_Nil)

lemma join_split_nl: "join_nl (split_nl s) = s"
  by (simp add: split_nl_def join_split_from)

lemma split_from_no_nl:
  "CHR 0x0A \<notin> set cur \<Longrightarrow> l \<in> set (split_from cur s) \<Longrightarrow> CHR 0x0A \<notin> set l"
proof (induction s arbitrary: cur)
  case Nil
  then show ?case by simp
next
  case (Cons c cs)
  show ?case
  proof (cases "c = CHR 0x0A")
    case True
    with Cons.prems have "l = cur \<or> l \<in> set (split_from [] cs)" by simp
    then show ?thesis using Cons.prems(1) Cons.IH[of "[]"] by auto
  next
    case False
    with Cons.prems have "l \<in> set (split_from (cur @ [c]) cs)" by simp
    moreover have "CHR 0x0A \<notin> set (cur @ [c])" using False Cons.prems(1) by simp
    ultimately show ?thesis by (rule Cons.IH[rotated])
  qed
qed

lemma split_nl_no_nl: "l \<in> set (split_nl s) \<Longrightarrow> CHR 0x0A \<notin> set l"
  using split_from_no_nl[of "[]"] by (simp add: split_nl_def)

lemma split_from_append_no_nl:
  "CHR 0x0A \<notin> set x \<Longrightarrow> split_from cur (x @ s) = split_from (cur @ x) s"
  by (induction x arbitrary: cur) auto

lemma split_from_join:
  "xs \<noteq> [] \<Longrightarrow> \<forall>x\<in>set xs. CHR 0x0A \<notin> set x \<Longrightarrow>
     split_from cur (join_nl xs) = (cur @ hd xs) # tl xs"
proof (induction xs arbitrary: cur rule: join_nl.induct)
  case 1
  then show ?case by simp
next
  case (2 x)
  then show ?case using split_from_append_no_nl[of x cur "[]"] by simp
next
  case (3 x y ys)
  have "split_from cur (join_nl (x # y # ys)) = split_from (cur @ x) (CHR 0x0A # join_nl (y # ys))"
    using 3 by (simp add: split_from_append_no_nl)
  also have "\<dots> = (cur @ x) # split_from [] (join_nl (y # ys))" by simp
  also have "split_from [] (join_nl (y # ys)) = y # ys" using 3 by simp
  finally show ?case by simp
qed

lemma split_join_nl:
  "xs \<noteq> [] \<Longrightarrow> \<forall>x\<in>set xs. CHR 0x0A \<notin> set x \<Longrightarrow> split_nl (join_nl xs) = xs"
  by (simp add: split_nl_def split_from_join)

lemma strip_fixed:
  "s = [] \<or> (\<not> isspace (hd s) \<and> \<not> isspace (last s)) \<Longrightarrow> strip s = s"
proof (cases "s = []")
  case True
  then show ?thesis by (simp add: strip_def)
next
  case False
  assume "s = [] \<or> (\<not> isspace (hd s) \<and> \<not> isspace (last s))"
  with False have h: "\<not> isspace (hd s)" and l: "\<not> isspace (last s)" by auto
  have a: "dropWhile isspace s = s" using h False by (cases s) auto
  have "hd (rev s) = last s" using False by (simp add: hd_rev)
  moreover have "rev s \<noteq> []" using False by simp
  ultimately have b: "dropWhile isspace (rev s) = rev s" using l
    by (metis dropWhile.simps(2) list.exhaust_sel)
  show ?thesis unfolding strip_def a b by simp
qed

lemma dropWhile_ends:
  "dropWhile P xs = [] \<or> \<not> P (hd (dropWhile P xs))"
  by (metis hd_dropWhile)

lemma strip_ends:
  "strip s = [] \<or> (\<not> isspace (hd (strip s)) \<and> \<not> isspace (last (strip s)))"
proof (cases "strip s = []")
  case True
  then show ?thesis by simp
next
  case False
  let ?y = "dropWhile isspace s"
  let ?z = "dropWhile isspace (rev ?y)"
  have s: "strip s = rev ?z" by (simp add: strip_def)
  with False have zne: "?z \<noteq> []" by simp
  then have "\<not> isspace (hd ?z)" by (metis hd_dropWhile)
  then have l: "\<not> isspace (last (strip s))" using zne s by (simp add: last_rev)
  have yne: "?y \<noteq> []"
  proof
    assume a: "?y = []"
    have "?z = []" unfolding a by simp
    with zne show False ..
  qed
  then have hy: "\<not> isspace (hd ?y)" by (metis hd_dropWhile)
  obtain pre where "rev ?y = pre @ ?z" by (metis takeWhile_dropWhile_id)
  then have "?y = rev ?z @ rev pre" by (metis rev_append rev_rev_ident)
  then have "hd ?y = hd (rev ?z)" using zne by (metis hd_append2 rev_is_Nil_conv)
  with hy s have "\<not> isspace (hd (strip s))" by simp
  with l show ?thesis by simp
qed

lemma strip_strip: "strip (strip s) = strip s"
  by (rule strip_fixed) (rule strip_ends)

lemma set_strip: "set (strip s) \<subseteq> set s"
proof
  fix c assume "c \<in> set (strip s)"
  then have "c \<in> set (dropWhile isspace (rev (dropWhile isspace s)))" by (simp add: strip_def)
  then have "c \<in> set (rev (dropWhile isspace s))" by (rule set_dropWhileD)
  then have "c \<in> set (dropWhile isspace s)" by simp
  then show "c \<in> set s" by (rule set_dropWhileD)
qed

lemma find_heading_from_first:
  "s < length ls \<Longrightarrow> target_line ts th (ls ! s) \<Longrightarrow> \<forall>k<s. \<not> target_line ts th (ls ! k) \<Longrightarrow>
     find_heading_from ts th n_lines i ls =
       Some (i + s, find_end_line (length ts) n_lines (Suc (i + s)) (drop (Suc s) ls))"
proof (induction ls arbitrary: s i)
  case Nil
  then show ?case by simp
next
  case (Cons l ls)
  show ?case
  proof (cases s)
    case 0
    with Cons.prems show ?thesis
      by (simp add: find_heading_from_step del: find_heading_from.simps(2))
  next
    case (Suc s')
    have nl: "\<not> target_line ts th l" using Cons.prems(3) Suc by auto
    have a: "s' < length ls" using Cons.prems(1) Suc by simp
    have b: "target_line ts th (ls ! s')" using Cons.prems(2) Suc by simp
    have c: "\<forall>k<s'. \<not> target_line ts th (ls ! k)"
    proof (intro allI impI)
      fix k assume "k < s'"
      then have "Suc k < s" using Suc by simp
      with Cons.prems(3) have "\<not> target_line ts th ((l # ls) ! Suc k)" by blast
      then show "\<not> target_line ts th (ls ! k)" by simp
    qed
    from Cons.IH[OF a b c, of "Suc i"] nl Suc show ?thesis
      by (simp add: find_heading_from_step del: find_heading_from.simps(2))
  qed
qed

lemma find_end_line_at_heading:
  "ls = [] \<and> n_lines = j \<or> (ls \<noteq> [] \<and> heading_upto isspace n (hd ls)) \<Longrightarrow>
     find_end_line n n_lines j ls = j"
  by (cases ls) (auto simp: heading_upto_iff)

lemma replace_then_locate:
  assumes found: "find_heading_in_content content label level = Some (s, e)"
    and ne: "label \<noteq> []"
  shows "find_heading_in_content (update_heading_in_content content label label [] level) label level
           = Some (s, Suc s)"
proof -
  let ?ls = "split_nl content"
  let ?ts = "star_string level"
  let ?n = "length ?ts"
  let ?hl = "?ts @ '' '' @ label"
  let ?new = "take s ?ls @ [?hl] @ drop e ?ls"
  from found have f: "find_heading_from ?ts label (length ?ls) 0 ?ls = Some (s, e)"
    by (simp add: find_heading_in_content_def Let_def)
  from find_heading_from_Some[OF f]
  have s: "s < length ?ls" and t: "target_line ?ts label (?ls ! s)"
    and before: "\<forall>k<s. \<not> target_line ?ts label (?ls ! k)"
    and e: "e = find_end_line ?n (length ?ls) (Suc s) (drop (Suc s) ?ls)"
    by simp_all
  from t obtain g2 where g2: "heading_match (?ls ! s) = Some (?ts, g2)" "strip g2 = label"
    by (auto simp: target_line_def)
  from heading_match_SomeD[OF g2(1)] obtain ws tx where
    ts: "?ts \<noteq> []" "?ts = replicate ?n CHR ''*''" and
    line: "?ls ! s = ?ts @ ws @ tx" "strip tx = strip g2"
    by blast
  have npos: "0 < ?n" using ts(1) by simp
  \<comment> \<open>the label holds no line feed\<close>
  have "?ls ! s \<in> set ?ls" using s by simp
  then have "CHR 0x0A \<notin> set (?ls ! s)" by (rule split_nl_no_nl)
  then have "CHR 0x0A \<notin> set tx" using line(1) by simp
  moreover have "set label \<subseteq> set tx" using set_strip[of tx] line(2) g2(2) by simp
  ultimately have lab_nl: "CHR 0x0A \<notin> set label" by blast
  have hl_nl: "CHR 0x0A \<notin> set ?hl"
    using lab_nl by (simp add: star_string_def)
  \<comment> \<open>the end of the old body\<close>
  have "length ?ls = Suc s + length (drop (Suc s) ?ls)" using s by simp
  from find_end_line_spec[OF this, of ?n, folded e]
  have e1: "Suc s \<le> e" and e2: "e \<le> length ?ls"
    and e4: "e < length ?ls \<longrightarrow> heading_upto isspace ?n (drop (Suc s) ?ls ! (e - Suc s))"
    by blast+
  have e5: "e < length ?ls \<Longrightarrow> heading_upto isspace ?n (?ls ! e)"
  proof -
    assume l: "e < length ?ls"
    with e4 have "heading_upto isspace ?n (drop (Suc s) ?ls ! (e - Suc s))" by simp
    moreover have "drop (Suc s) ?ls ! (e - Suc s) = ?ls ! e" using e1 l by simp
    ultimately show ?thesis by simp
  qed
  \<comment> \<open>the new text and its lines\<close>
  have upd: "update_heading_in_content content label label [] level = join_nl ?new"
    using found by (simp add: update_heading_in_content_def Let_def strip_def)
  have "\<forall>x\<in>set ?new. CHR 0x0A \<notin> set x"
  proof
    fix x assume "x \<in> set ?new"
    then have "x \<in> set (take s ?ls) \<or> x = ?hl \<or> x \<in> set (drop e ?ls)" by auto
    then show "CHR 0x0A \<notin> set x"
      using hl_nl split_nl_no_nl[of x content] by (auto dest: in_set_takeD in_set_dropD)
  qed
  then have sp: "split_nl (join_nl ?new) = ?new" by (intro split_join_nl) simp_all
  \<comment> \<open>the new heading line is the first target\<close>
  have lts: "length (take s ?ls) = s" using s by simp
  have at_s: "?new ! s = ?hl" using lts by (simp add: nth_append)
  have lab: "strip label = label" using g2(2) strip_strip[of g2] by simp
  from heading_match_SomeI[OF npos, of "'' ''" label] ne
  obtain g where "heading_match (replicate ?n CHR ''*'' @ '' '' @ label) = Some (replicate ?n CHR ''*'', g)"
    "strip g = strip label"
    by (auto simp: isspace_def)
  then have tl: "target_line ?ts label (?new ! s)"
    unfolding at_s using ts(2) lab by (auto simp: target_line_def)
  have bf: "\<forall>k<s. \<not> target_line ?ts label (?new ! k)"
  proof (intro allI impI)
    fix k assume k: "k < s"
    then have "?new ! k = ?ls ! k" using lts by (simp add: nth_append)
    with before k show "\<not> target_line ?ts label (?new ! k)" by simp
  qed
  have sl: "s < length ?new" using lts by simp
  have dr: "drop (Suc s) ?new = drop e ?ls" using lts by simp
  from find_heading_from_first[OF sl tl bf, of "length ?new" 0]
  have fnew: "find_heading_from ?ts label (length ?new) 0 ?new
      = Some (s, find_end_line ?n (length ?new) (Suc s) (drop e ?ls))"
    unfolding dr by simp
  have "find_end_line ?n (length ?new) (Suc s) (drop e ?ls) = Suc s"
  proof (rule find_end_line_at_heading, cases "e < length ?ls")
    case True
    then have "drop e ?ls \<noteq> []" by simp
    moreover have "hd (drop e ?ls) = ?ls ! e" using True by (simp add: hd_drop_conv_nth)
    ultimately show "drop e ?ls = [] \<and> length ?new = Suc s \<or>
        drop e ?ls \<noteq> [] \<and> heading_upto isspace ?n (hd (drop e ?ls))"
      using e5[OF True] by simp
  next
    case False
    then have "drop e ?ls = []" by simp
    then show "drop e ?ls = [] \<and> length ?new = Suc s \<or>
        drop e ?ls \<noteq> [] \<and> heading_upto isspace ?n (hd (drop e ?ls))"
      using lts by simp
  qed
  with fnew show ?thesis
    unfolding upd by (simp add: find_heading_in_content_def Let_def sp del: append.simps)
qed

lemma title_line_after_colon:
  assumes "title_line l"
  shows "index (split_colon_once l) 1 = Inr (drop 8 l)"
proof -
  from assms obtain rest where "l = ''#+title:'' @ rest \<or> l = ''#+TITLE:'' @ rest"
    by (auto simp: title_line_def prefix_def)
  then show ?thesis
    by (auto simp: split_colon_once_def index_def)
qed

lemma title_from_lines_none:
  "\<forall>l\<in>set ls. \<not> title_line l \<Longrightarrow> title_from_lines ls = Inr None"
  by (induction ls) (auto simp: title_line_def)

lemma title_from_lines_first:
  "i < length ls \<Longrightarrow> title_line (ls ! i) \<Longrightarrow> \<forall>k<i. \<not> title_line (ls ! k) \<Longrightarrow>
     title_from_lines ls = Inr (Some (strip (drop 8 (ls ! i))))"
proof (induction ls arbitrary: i)
  case Nil
  then show ?case by simp
next
  case (Cons l ls)
  show ?case
  proof (cases i)
    case 0
    with Cons.prems(2) have t: "title_line l" by simp
    then have "prefix ''#+title:'' l \<or> prefix ''#+TITLE:'' l" by (simp add: title_line_def)
    then show ?thesis using title_line_after_colon[OF t] 0 by simp
  next
    case (Suc j)
    have n: "\<not> title_line l" using Cons.prems(3) Suc by auto
    then have n': "\<not> (prefix ''#+title:'' l \<or> prefix ''#+TITLE:'' l)" by (simp add: title_line_def)
    have a: "j < length ls" using Cons.prems(1) Suc by simp
    have b: "title_line (ls ! j)" using Cons.prems(2) Suc by simp
    have c: "\<forall>k<j. \<not> title_line (ls ! k)"
    proof (intro allI impI)
      fix k assume "k < j"
      then have "Suc k < i" using Suc by simp
      with Cons.prems(3) have "\<not> title_line ((l # ls) ! Suc k)" by blast
      then show "\<not> title_line (ls ! k)" by simp
    qed
    from Cons.IH[OF a b c] n' Suc show ?thesis by simp
  qed
qed

text \<open>
  C6 (amended). With an absent or empty parent, \<^const>\<open>add_heading_to_content\<close> appends
  the new heading at the end of the document: the result is the old text, a line feed
  (two when the last line of the old text is not blank), the new heading line, and the
  body after an empty line when the body is not blank. The text \<^verbatim>\<open>"* A\n"\<close> ends with an
  empty last line, so adding the heading \<open>B\<close> at level 1 with an empty body gives
  \<^verbatim>\<open>"* A\n\n* B"\<close>.
\<close>

theorem add_heading_appends:
  assumes "parent = None \<or> parent = Some []"
  shows "add_heading_to_content content parent parent_level new_heading new_content new_level Depends =
     Inr (content @ (if blank (last (split_nl content)) then [CHR 0x0A] else [CHR 0x0A, CHR 0x0A]) @
          star_string new_level @ '' '' @ new_heading @
          (if strip new_content = [] then [] else [CHR 0x0A, CHR 0x0A] @ new_content))"
proof -
  let ?ls = "split_nl content"
  let ?h = "star_string new_level @ '' '' @ new_heading"
  have pos: "(case parent of None \<Rightarrow> Some (length ?ls)
       | Some p \<Rightarrow> if p = [] then Some (length ?ls)
           else (case find_heading_in_content content p parent_level of
                   None \<Rightarrow> None | Some (start_line, end_line) \<Rightarrow> Some end_line)) = Some (length ?ls)"
    using assms by auto
  have ne: "?ls \<noteq> []" by (rule split_nl_not_Nil)
  have j1: "join_nl (?ls @ [[]]) = content @ [CHR 0x0A]"
    using ne by (simp add: join_nl_append join_split_nl)
  have tail: "join_nl ([?h] @ [[]] @ split_nl new_content) = ?h @ [CHR 0x0A, CHR 0x0A] @ new_content"
    using split_nl_not_Nil[of new_content]
    by (simp add: join_nl_Cons join_split_nl)
  have a: "join_nl (xs @ [?h]) = join_nl xs @ CHR 0x0A # ?h" if "xs \<noteq> []" for xs
    using that by (simp add: join_nl_append)
  have b: "join_nl (xs @ [?h] @ [[]] @ split_nl new_content)
           = join_nl xs @ CHR 0x0A # ?h @ [CHR 0x0A, CHR 0x0A] @ new_content" if "xs \<noteq> []" for xs
    using that tail join_nl_append[of xs "[?h] @ [[]] @ split_nl new_content"] by simp
  show ?thesis
    unfolding add_heading_to_content_def Let_def pos
    using ne a[of ?ls] a[of "?ls @ [[]]"] b[of ?ls] b[of "?ls @ [[]]"] j1
    by (simp add: blank_def join_split_nl)
qed

theorem add_heading_appends_witness:
  "add_heading_to_content ''* A\<newline>'' None 1 ''B'' [] 1 Depends = Inr ''* A\<newline>\<newline>* B'' \<and>
   add_heading_to_content ''* A'' (Some []) 1 ''B'' [] 1 Depends = Inr ''* A\<newline>\<newline>* B''"
proof -
  have l1: "split_nl ''* A\<newline>'' = [''* A'', []]" by code_simp
  have l2: "split_nl ''* A'' = [''* A'']" by code_simp
  have b1: "blank []" by (simp add: blank_def strip_def)
  have b2: "\<not> blank ''* A''" by (simp add: blank_def strip_def isspace_def)
  have s: "strip [] = []" by (simp add: strip_def)
  have one: "add_heading_to_content ''* A\<newline>'' None 1 ''B'' [] 1 Depends = Inr ''* A\<newline>\<newline>* B''"
    using add_heading_appends [of None "''* A\<newline>''" 1 "''B''" "[]" 1]
    unfolding l1 using b1 s by (simp add: star_string_def)
  have two: "add_heading_to_content ''* A'' (Some []) 1 ''B'' [] 1 Depends = Inr ''* A\<newline>\<newline>* B''"
    using add_heading_appends [of "Some []" "''* A''" 1 "''B''" "[]" 1]
    unfolding l2 using b2 s by (simp add: star_string_def)
  from one two show ?thesis by blast
qed

text \<open>
  The example of the claim as stated: the result is not \<^verbatim>\<open>"* A\n* B\n"\<close>.
\<close>

theorem add_heading_example_counterexample:
  "add_heading_to_content ''* A\<newline>'' None 1 ''B'' [] 1 Depends \<noteq> Inr ''* A\<newline>* B\<newline>'' \<and>
   add_heading_to_content ''* A\<newline>'' (Some []) 1 ''B'' [] 1 Depends \<noteq> Inr ''* A\<newline>* B\<newline>''"
  by code_simp

text \<open>
  C7 (amended). For every document text in which \<^const>\<open>find_heading_in_content\<close> finds a
  heading with a non-empty label \<open>L\<close> at the given level, replacing that heading by
  itself with an empty new body and then reading its content gives the empty string.
\<close>

theorem replace_empty_then_read:
  assumes "find_heading_in_content content label level \<noteq> None" and "label \<noteq> []"
  shows "get_heading_content (update_heading_in_content content label label [] level) label level = []"
proof -
  from assms(1) obtain s e where "find_heading_in_content content label level = Some (s, e)"
    by auto
  from replace_then_locate[OF this assms(2)] show ?thesis
    by (simp add: get_heading_content_def)
qed

theorem replace_empty_then_read_witness:
  "find_heading_in_content ''* A\<newline>foo\<newline>** B\<newline>* C'' ''A'' 1 \<noteq> None \<and> ''A'' \<noteq> [] \<and>
   get_heading_content
     (update_heading_in_content ''* A\<newline>foo\<newline>** B\<newline>* C'' ''A'' ''A'' [] 1) ''A'' 1 = []"
proof -
  have f: "find_heading_in_content ''* A\<newline>foo\<newline>** B\<newline>* C'' ''A'' 1 \<noteq> None"
    by code_simp
  have n: "''A'' \<noteq> []" by simp
  from replace_empty_then_read [OF f n] f n show ?thesis by blast
qed

text \<open>
  The claim as stated fails for the empty label. The line of a star and two spaces is a
  heading whose text trims to the empty string; the line that replaces it, a star and
  one space, is no heading, so the later reading finds the next heading with an empty
  label and returns its content.
\<close>

theorem replace_empty_label_counterexample:
  "find_heading_in_content ''*  \<newline>foo\<newline>*  \<newline>bar'' [] 1 = Some (0, 2) \<and>
   get_heading_content
     (update_heading_in_content ''*  \<newline>foo\<newline>*  \<newline>bar'' [] [] [] 1) [] 1 = ''bar''"
  by code_simp

text \<open>
  C8 (amended). The title is taken from the first line that starts with \<^verbatim>\<open>#+title:\<close> or
  with \<^verbatim>\<open>#+TITLE:\<close> (these two spellings only): it is the trimmed text after that
  colon. When no line starts so, or when that text is empty, the file's base name is
  the title.
\<close>

theorem title_of_document:
  "((\<forall>l\<in>set (split_nl content). \<not> title_line l) \<longrightarrow>
      extract_title_from_content content = Inr None \<and> document_title content stem = Inr stem) \<and>
   (\<forall>i. i < length (split_nl content) \<and> title_line (split_nl content ! i) \<and>
        (\<forall>k<i. \<not> title_line (split_nl content ! k)) \<longrightarrow>
      extract_title_from_content content = Inr (Some (strip (drop 8 (split_nl content ! i)))) \<and>
      document_title content stem =
        Inr (if strip (drop 8 (split_nl content ! i)) = [] then stem
             else strip (drop 8 (split_nl content ! i))))"
proof -
  have a: "extract_title_from_content content = Inr None \<and> document_title content stem = Inr stem"
    if "\<forall>l\<in>set (split_nl content). \<not> title_line l"
    using title_from_lines_none[OF that]
    by (simp add: extract_title_from_content_def document_title_def)
  have b: "extract_title_from_content content = Inr (Some (strip (drop 8 (split_nl content ! i)))) \<and>
      document_title content stem =
        Inr (if strip (drop 8 (split_nl content ! i)) = [] then stem
             else strip (drop 8 (split_nl content ! i)))"
    if "i < length (split_nl content)" "title_line (split_nl content ! i)"
      "\<forall>k<i. \<not> title_line (split_nl content ! k)" for i
    using title_from_lines_first[OF that]
    by (simp add: extract_title_from_content_def document_title_def)
  from a b show ?thesis by blast
qed

theorem title_of_document_witness:
  "extract_title_from_content ''x\<newline>#+TITLE:  Foo: bar '' = Inr (Some ''Foo: bar'') \<and>
   document_title ''x\<newline>#+TITLE:  Foo: bar '' ''note'' = Inr ''Foo: bar'' \<and>
   document_title ''* A\<newline>text'' ''note'' = Inr ''note''"
proof -
  have ls: "split_nl ''x\<newline>#+TITLE:  Foo: bar '' = [''x'', ''#+TITLE:  Foo: bar '']"
    by code_simp
  have ls2: "split_nl ''* A\<newline>text'' = [''* A'', ''text'']"
    by code_simp
  have st: "strip ''  Foo: bar '' = ''Foo: bar''"
    by code_simp
  have t1: "title_line ''#+TITLE:  Foo: bar ''" by (simp add: title_line_def)
  have t0: "\<not> title_line ''x''" by (simp add: title_line_def)
  have t2: "\<not> title_line ''* A''" "\<not> title_line ''text''" by (simp_all add: title_line_def)
  have one: "extract_title_from_content ''x\<newline>#+TITLE:  Foo: bar '' = Inr (Some ''Foo: bar'') \<and>
   document_title ''x\<newline>#+TITLE:  Foo: bar '' ''note'' = Inr ''Foo: bar''"
    using title_of_document [of "''x\<newline>#+TITLE:  Foo: bar ''" "''note''", THEN conjunct2, THEN spec, of 1]
    unfolding ls using t0 t1 st by simp
  have two: "document_title ''* A\<newline>text'' ''note'' = Inr ''note''"
    using title_of_document [of "''* A\<newline>text''" "''note''", THEN conjunct1]
    unfolding ls2 using t2 by simp
  from one two show ?thesis by blast
qed

text \<open>
  The claim as stated takes any casing of the keyword. A line \<^verbatim>\<open>#+Title: Foo\<close> is not
  recognised, and the base name is used.
\<close>

theorem title_mixed_case_counterexample:
  "title_line_any_case ''#+Title: Foo'' \<and>
   extract_title_from_content ''#+Title: Foo'' = Inr None \<and>
   document_title ''#+Title: Foo'' ''note'' = Inr ''note''"
  by code_simp

section \<open>Properties of the agenda extractor\<close>

lemma split_ws_from_cur:
  "cur \<noteq> [] \<Longrightarrow> \<exists>rest. split_ws_from cur s = (cur @ takeWhile (\<lambda>c. \<not> isspace c) s) # rest"
proof (induction s arbitrary: cur)
  case Nil
  then show ?case by simp
next
  case (Cons c cs)
  show ?case
  proof (cases "isspace c")
    case True
    with Cons.prems show ?thesis by simp
  next
    case False
    from Cons.IH[of "cur @ [c]"] False show ?thesis by simp
  qed
qed

lemma split_ws_from_Nil_empty:
  "dropWhile isspace s = [] \<Longrightarrow> split_ws_from [] s = []"
  by (induction s) (auto split: if_splits)

lemma split_ws_from_Nil_first:
  "dropWhile isspace s \<noteq> [] \<Longrightarrow>
     \<exists>rest. split_ws_from [] s = takeWhile (\<lambda>c. \<not> isspace c) (dropWhile isspace s) # rest"
proof (induction s)
  case Nil
  then show ?case by simp
next
  case (Cons c cs)
  show ?case
  proof (cases "isspace c")
    case True
    with Cons show ?thesis by simp
  next
    case False
    from split_ws_from_cur[of "[c]" cs] False show ?thesis by simp
  qed
qed

lemma first_token_empty: "first_token s = [] \<longleftrightarrow> dropWhile isspace s = []"
proof
  assume a: "first_token s = []"
  show "dropWhile isspace s = []"
  proof (rule ccontr)
    assume n: "dropWhile isspace s \<noteq> []"
    then have "\<not> isspace (hd (dropWhile isspace s))" by (metis hd_dropWhile)
    with n have "takeWhile (\<lambda>c. \<not> isspace c) (dropWhile isspace s) \<noteq> []"
      by (cases "dropWhile isspace s") auto
    with a show False by (simp add: first_token_def)
  qed
next
  assume a: "dropWhile isspace s = []"
  show "first_token s = []" unfolding first_token_def a by simp
qed

lemma index_split_ws:
  "index (split_ws s) 0 = (if first_token s = [] then Inl IndexError else Inr (first_token s))"
proof (cases "dropWhile isspace s = []")
  case True
  then show ?thesis
    using split_ws_from_Nil_empty[OF True] first_token_empty[of s]
    by (simp add: split_ws_def index_def)
next
  case False
  from split_ws_from_Nil_first[OF False] obtain rest where
    "split_ws_from [] s = takeWhile (\<lambda>c. \<not> isspace c) (dropWhile isspace s) # rest" ..
  then show ?thesis using False first_token_empty[of s]
    by (simp add: split_ws_def index_def first_token_def)
qed

lemma strptime_ymd_Nil: "strptime_ymd [] = Inl ValueError"
  by (simp add: strptime_ymd_def)

lemma timestamp_date_first_token:
  "timestamp_date keyword content = date_by first_token keyword content"
  by (auto simp: timestamp_date_def date_by_def index_split_ws strptime_ymd_Nil
      split: option.splits sum.splits)

lemma strptime_ymd_valid:
  "strptime_ymd s = Inr d \<Longrightarrow> valid_date (year d) (month d) (day d)"
  by (auto simp: strptime_ymd_def Let_def split: if_splits)

lemma digit_char_cases:
  "k < 10 \<Longrightarrow> P 0 \<Longrightarrow> P 1 \<Longrightarrow> P 2 \<Longrightarrow> P 3 \<Longrightarrow> P 4 \<Longrightarrow> P 5 \<Longrightarrow> P 6 \<Longrightarrow> P 7 \<Longrightarrow> P 8 \<Longrightarrow> P 9 \<Longrightarrow> P (k::nat)"
proof -
  assume k: "k < 10" and p: "P 0" "P 1" "P 2" "P 3" "P 4" "P 5" "P 6" "P 7" "P 8" "P 9"
  from k have "k = 0 \<or> k = 1 \<or> k = 2 \<or> k = 3 \<or> k = 4 \<or> k = 5 \<or> k = 6 \<or> k = 7 \<or> k = 8 \<or> k = 9"
    by arith
  with p show "P k" by blast
qed

lemma digit_char_props:
  "is_digit (digit_char n) \<and> digit_value (digit_char n) = n mod 10 \<and>
   digit_char n \<noteq> CHR ''-'' \<and> digit_char n \<noteq> CHR '' ''"
proof -
  have k: "n mod 10 < 10" by simp
  have "is_digit (''0123456789'' ! k) \<and> digit_value (''0123456789'' ! k) = k \<and>
      ''0123456789'' ! k \<noteq> CHR ''-'' \<and> ''0123456789'' ! k \<noteq> CHR '' ''" if "k < 10" for k
    using that by (rule digit_char_cases) (simp_all add: is_digit_def digit_value_def)
  from this[OF k] show ?thesis by (simp add: digit_char_def)
qed

lemma length_zero_padded: "length (zero_padded w n) = w"
  by (induction w arbitrary: n) auto

lemma digits_zero_padded: "list_all is_digit (zero_padded w n)"
  by (induction w arbitrary: n) (auto simp: digit_char_props)

lemma zero_padded_plain:
  "list_all (\<lambda>c. c \<noteq> CHR ''-'' \<and> c \<noteq> CHR '' '') (zero_padded w n)"
  by (induction w arbitrary: n) (simp_all add: digit_char_props)

lemma zero_padded_no_dash: "c \<in> set (zero_padded w n) \<Longrightarrow> c \<noteq> CHR ''-''"
  using zero_padded_plain[of w n] by (simp add: list_all_iff)

lemma zero_padded_no_space: "c \<in> set (zero_padded w n) \<Longrightarrow> c \<noteq> CHR '' ''"
  using zero_padded_plain[of w n] by (simp add: list_all_iff)

lemma int_of_digits_snoc: "int_of_digits (s @ [c]) = 10 * int_of_digits s + digit_value c"
  by (simp add: int_of_digits_def)

lemma int_of_digits_zero_padded: "int_of_digits (zero_padded w n) = n mod 10 ^ w"
proof (induction w arbitrary: n)
  case 0
  then show ?case by (simp add: int_of_digits_def)
next
  case (Suc w)
  have "n mod (10 * 10 ^ w) = 10 * (n div 10 mod 10 ^ w) + n mod 10"
    by (rule mod_mult2_eq)
  then show ?case using Suc by (simp add: int_of_digits_snoc digit_char_props)
qed

lemma strptime_isoformat:
  assumes "valid_date y m d"
  shows "strptime_ymd (date_isoformat \<lparr>year = y, month = m, day = d\<rparr>) = Inr \<lparr>year = y, month = m, day = d\<rparr>"
proof -
  let ?Y = "zero_padded 4 y" and ?M = "zero_padded 2 m" and ?D = "zero_padded 2 d"
  from assms have y: "y \<le> 9999" and m: "1 \<le> m" "m \<le> 12" and d: "1 \<le> d" "d \<le> 31"
    by (auto simp: valid_date_def days_in_month_def split: if_splits)
  have iso: "date_isoformat \<lparr>year = y, month = m, day = d\<rparr> = ?Y @ CHR ''-'' # ?M @ CHR ''-'' # ?D"
    by (simp add: date_isoformat_def)
  have t4: "take 4 (?Y @ CHR ''-'' # ?M @ CHR ''-'' # ?D) = ?Y"
    by (simp add: length_zero_padded)
  have d4: "drop 4 (?Y @ CHR ''-'' # ?M @ CHR ''-'' # ?D) = CHR ''-'' # ?M @ CHR ''-'' # ?D"
    by (simp add: length_zero_padded)
  have tm: "takeWhile (\<lambda>c. c \<noteq> CHR ''-'') (?M @ CHR ''-'' # ?D) = ?M"
    using zero_padded_no_dash[of _ 2 m] by (simp add: takeWhile_tail takeWhile_eq_all_conv)
  have dm: "dropWhile (\<lambda>c. c \<noteq> CHR ''-'') (?M @ CHR ''-'' # ?D) = CHR ''-'' # ?D"
    using zero_padded_no_dash[of _ 2 m] by (simp add: dropWhile_append3 dropWhile_eq_Nil_conv dropWhile_append)
  have ds: "dropWhile (\<lambda>c. c = CHR '' '') ?D = ?D"
    using zero_padded_no_space[of "hd ?D" 2 d] length_zero_padded[of 2 d] by (cases ?D) auto
  have yv: "int_of_digits ?Y = y" using y by (simp add: int_of_digits_zero_padded)
  have mv: "int_of_digits ?M = m" using m by (simp add: int_of_digits_zero_padded)
  have dv: "int_of_digits ?D = d" using d by (simp add: int_of_digits_zero_padded)
  have mf: "month_field ?M"
    unfolding month_field_def mv using m by (simp add: length_zero_padded digits_zero_padded)
  have df: "day_field ?D"
    unfolding day_field_def dv using d by (simp add: length_zero_padded digits_zero_padded)
  show ?thesis
    unfolding iso strptime_ymd_def Let_def t4 d4 list.sel tm dm ds yv mv dv
    using mf df assms by (simp add: length_zero_padded digits_zero_padded)
qed

lemma is_digit_plain: "is_digit c \<Longrightarrow> \<not> isspace c \<and> c \<noteq> CHR ''>''"
  by (auto simp: is_digit_def isspace_def)

lemma date_isoformat_chars:
  "list_all (\<lambda>c. \<not> isspace c \<and> c \<noteq> CHR ''>'') (date_isoformat d)"
proof -
  have z: "list_all (\<lambda>c. \<not> isspace c \<and> c \<noteq> CHR ''>'') (zero_padded w n)" for w n
    using digits_zero_padded[of w n] is_digit_plain by (auto simp: list_all_iff)
  show ?thesis
    unfolding date_isoformat_def using z by (simp add: isspace_def)
qed

lemma date_isoformat_not_Nil: "date_isoformat d \<noteq> []"
  by (simp add: date_isoformat_def)

lemma timestamp_date_well_formed:
  assumes v: "valid_date y m d"
    and rest: "CHR ''>'' \<notin> set rest" "rest = [] \<or> isspace (hd rest)"
  shows "timestamp_date keyword
           (keyword @ '' <'' @ date_isoformat \<lparr>year = y, month = m, day = d\<rparr> @ rest @ ''>'' @ post)
         = Some \<lparr>year = y, month = m, day = d\<rparr>"
proof -
  let ?iso = "date_isoformat \<lparr>year = y, month = m, day = d\<rparr>"
  let ?c = "keyword @ '' <'' @ ?iso @ rest @ ''>'' @ post"
  have chars: "\<forall>c\<in>set ?iso. \<not> isspace c \<and> c \<noteq> CHR ''>''"
    using date_isoformat_chars[of "\<lparr>year = y, month = m, day = d\<rparr>"] by (simp add: list_all_iff)
  have ne: "?iso \<noteq> []" by (rule date_isoformat_not_Nil)
  have sp: "isspace CHR '' ''" "\<not> isspace CHR ''<''" by (simp_all add: isspace_def)
  have noc: "\<forall>c\<in>set (?iso @ rest). c \<noteq> CHR ''>''" using chars rest(1) by auto
  have tw: "takeWhile (\<lambda>c. c \<noteq> CHR ''>'') ((?iso @ rest) @ CHR ''>'' # post) = ?iso @ rest"
    using noc by (simp only: takeWhile_tail[of "\<lambda>c. c \<noteq> CHR ''>''" "CHR ''>''", simplified])
       (simp add: takeWhile_eq_all_conv)
  have dw: "dropWhile (\<lambda>c. c \<noteq> CHR ''>'') ((?iso @ rest) @ CHR ''>'' # post) \<noteq> []"
    by (simp add: dropWhile_eq_Nil_conv)
  have m0: "match_timestamp_at keyword ?c = Some (?iso @ rest)"
    using tw dw ne sp by (simp add: match_timestamp_at_def)
  have search: "re_search_timestamp keyword ?c = Some (?iso @ rest)"
  proof (cases ?c)
    case Nil
    then show ?thesis by simp
  next
    case (Cons a as)
    then show ?thesis using m0 by (simp del: append.simps)
  qed
  have d1: "dropWhile isspace (?iso @ rest) = ?iso @ rest"
    using chars ne by (cases ?iso) auto
  have t1: "takeWhile (\<lambda>c. \<not> isspace c) (?iso @ rest) = ?iso"
  proof (cases rest)
    case Nil
    then show ?thesis using chars by (simp add: takeWhile_eq_all_conv)
  next
    case (Cons r rs)
    with rest(2) have "isspace r" by simp
    then show ?thesis using chars Cons by (simp add: takeWhile_tail takeWhile_eq_all_conv)
  qed
  have ft: "first_token (?iso @ rest) = ?iso" by (simp only: first_token_def d1 t1)
  show ?thesis
    unfolding timestamp_date_first_token date_by_def search
    by (simp only: ft strptime_isoformat[OF v] option.case sum.case)
qed

text \<open>
  C9 (amended). For every heading content block, the scheduled (respectively deadline)
  date is that of the first \<^verbatim>\<open>SCHEDULED: <...>\<close> (respectively \<^verbatim>\<open>DEADLINE: <...>\<close>)
  occurrence, read from the first white-space-delimited token of the bracketed value
  (not from its first ten characters) in the format \<^verbatim>\<open>%Y-%m-%d\<close>; a value whose first
  token is no date is treated as absent, and no error leaves the function. A bracketed
  value that starts with a valid date written as YYYY-MM-DD, followed by nothing or by
  white space, yields that date, and every date that is extracted is a valid date.
\<close>

theorem timestamps_by_first_token:
  "parse_timestamps_in_content h c =
     (date_by first_token ''SCHEDULED:'' c, date_by first_token ''DEADLINE:'' c) \<and>
   (valid_date y m d \<and> CHR ''>'' \<notin> set rest \<and> (rest = [] \<or> isspace (hd rest)) \<longrightarrow>
      fst (parse_timestamps_in_content h
             (''SCHEDULED: <'' @ date_isoformat \<lparr>year = y, month = m, day = d\<rparr> @ rest @ ''>'' @ post))
        = Some \<lparr>year = y, month = m, day = d\<rparr> \<and>
      snd (parse_timestamps_in_content h
             (''DEADLINE: <'' @ date_isoformat \<lparr>year = y, month = m, day = d\<rparr> @ rest @ ''>'' @ post))
        = Some \<lparr>year = y, month = m, day = d\<rparr>) \<and>
   (\<forall>dt. fst (parse_timestamps_in_content h c) = Some dt \<or>
         snd (parse_timestamps_in_content h c) = Some dt \<longrightarrow>
         valid_date (year dt) (month dt) (day dt))"
proof -
  have a: "parse_timestamps_in_content h c =
     (date_by first_token ''SCHEDULED:'' c, date_by first_token ''DEADLINE:'' c)"
    by (simp add: parse_timestamps_in_content_def timestamp_date_first_token)
  have b: "fst (parse_timestamps_in_content h
             (''SCHEDULED: <'' @ date_isoformat \<lparr>year = y, month = m, day = d\<rparr> @ rest @ ''>'' @ post))
        = Some \<lparr>year = y, month = m, day = d\<rparr> \<and>
      snd (parse_timestamps_in_content h
             (''DEADLINE: <'' @ date_isoformat \<lparr>year = y, month = m, day = d\<rparr> @ rest @ ''>'' @ post))
        = Some \<lparr>year = y, month = m, day = d\<rparr>"
    if "valid_date y m d" "CHR ''>'' \<notin> set rest" "rest = [] \<or> isspace (hd rest)"
    using timestamp_date_well_formed[OF that, of "''SCHEDULED:''" post]
      timestamp_date_well_formed[OF that, of "''DEADLINE:''" post]
    by (simp add: parse_timestamps_in_content_def)
  have c: "valid_date (year dt) (month dt) (day dt)"
    if "fst (parse_timestamps_in_content h c) = Some dt \<or>
        snd (parse_timestamps_in_content h c) = Some dt" for dt
    using that strptime_ymd_valid[of _ dt]
    by (auto simp: parse_timestamps_in_content_def timestamp_date_def
        split: option.splits sum.splits)
  from a b c show ?thesis by blast
qed

theorem timestamps_by_first_token_witness:
  "fst (parse_timestamps_in_content [] ''SCHEDULED: <2024-01-05 Fri 10:00>'')
     = Some \<lparr>year = 2024, month = 1, day = 5\<rparr> \<and>
   snd (parse_timestamps_in_content [] ''DEADLINE: <2024-01-05 Fri 10:00>'')
     = Some \<lparr>year = 2024, month = 1, day = 5\<rparr> \<and>
   valid_date 2024 1 5"
proof -
  have v: "valid_date 2024 1 5" by (simp add: valid_date_def days_in_month_def)
  have r: "CHR ''>'' \<notin> set '' Fri 10:00''" "'' Fri 10:00'' = [] \<or> isspace (hd '' Fri 10:00'')"
    by (simp_all add: isspace_def)
  have iso: "date_isoformat \<lparr>year = 2024, month = 1, day = 5\<rparr> = ''2024-01-05''"
    by code_simp
  from timestamps_by_first_token [of "[]" "[]" 2024 1 5 "'' Fri 10:00''" "[]", THEN conjunct2, THEN conjunct1]
    v r
  show ?thesis unfolding iso by simp
qed

text \<open>
  The claim as stated reads the first ten characters. In \<^verbatim>\<open><2024-01-01Mon>\<close> they are a
  date, but the first token is \<^verbatim>\<open>2024-01-01Mon\<close>, which is none: the scheduled date is
  absent.
\<close>

theorem timestamps_first_ten_counterexample:
  "fst (parse_timestamps_in_content [] ''SCHEDULED: <2024-01-01Mon>'') = None \<and>
   date_by first_ten ''SCHEDULED:'' ''SCHEDULED: <2024-01-01Mon>''
     = Some \<lparr>year = 2024, month = 1, day = 1\<rparr>"
  by code_simp

lemma sections_of_lines_from: "sections_of_lines ls = sections_from (Map.empty, None, []) ls"
  by (simp add: sections_of_lines_def sections_from_def)

lemma sections_from_Nil: "sections_from (m, h, cc) [] = store_section m h cc"
  by (simp add: sections_from_def)

lemma sections_from_Cons:
  "sections_from (m, h, cc) (l # ls) =
     (case heading_text l of
        Some t \<Rightarrow> sections_from (store_section m h cc, Some t, []) ls
      | None \<Rightarrow> sections_from (m, h, cc @ [l]) ls)"
  by (auto simp: sections_from_def section_step_def heading_text_def split: option.splits)

lemma sections_from_append:
  "sections_from st (xs @ ys) = sections_from (fold section_step xs st) ys"
  by (simp add: sections_from_def)

lemma heading_text_None: "heading_text l = None \<longleftrightarrow> heading_match l = None"
  by (simp add: heading_text_def)

lemma store_section_apply:
  "store_section m h cc t = (if h = Some t \<and> t \<noteq> [] then Some (join_nl cc) else m t)"
  by (auto simp: store_section_def split: option.splits)

lemma sections_from_no_heading:
  "\<forall>l\<in>set ls. heading_text l \<noteq> Some t \<Longrightarrow>
     sections_from (m, h, cc) ls t =
       (if h = Some t \<and> t \<noteq> [] then Some (join_nl (cc @ takeWhile (\<lambda>l. heading_match l = None) ls))
        else m t)"
proof (induction ls arbitrary: m h cc)
  case Nil
  then show ?case by (simp add: sections_from_Nil store_section_apply)
next
  case (Cons l ls)
  from Cons.prems have rest: "\<forall>l\<in>set ls. heading_text l \<noteq> Some t" and l: "heading_text l \<noteq> Some t"
    by simp_all
  show ?case
  proof (cases "heading_text l")
    case None
    then have hm: "heading_match l = None" by (simp add: heading_text_None)
    show ?thesis
      using Cons.IH[OF rest, of m h "cc @ [l]"] None hm by (simp add: sections_from_Cons)
  next
    case (Some t')
    then obtain a b where hm: "heading_match l = Some (a, b)" by (auto simp: heading_text_def)
    from Some l have ne: "t' \<noteq> t" by simp
    have ih: "sections_from (store_section m h cc, Some t', []) ls t = store_section m h cc t"
      using Cons.IH[OF rest, of "store_section m h cc" "Some t'" "[]"] ne by simp
    have tw: "takeWhile (\<lambda>l. heading_match l = None) (l # ls) = []" using hm by simp
    have "sections_from (m, h, cc) (l # ls) t = store_section m h cc t"
      using ih Some by (simp add: sections_from_Cons)
    then show ?thesis unfolding tw by (simp add: store_section_apply)
  qed
qed

lemma fold_section_step_heading:
  "heading_text l = Some t \<Longrightarrow> \<exists>m. fold section_step (pre @ [l]) st = (m, Some t, [])"
  by (cases "fold section_step pre st")
     (auto simp: section_step_def heading_text_def split: option.splits)

lemma sections_of_lines_last:
  assumes i: "i < length ls" and h: "heading_text (ls ! i) = Some t" and ne: "t \<noteq> []"
    and later: "\<forall>j. i < j \<and> j < length ls \<longrightarrow> heading_text (ls ! j) \<noteq> Some t"
  shows "sections_of_lines ls t =
           Some (join_nl (takeWhile (\<lambda>l. heading_match l = None) (drop (Suc i) ls)))"
proof -
  have split: "ls = (take i ls @ [ls ! i]) @ drop (Suc i) ls"
    using i by (simp add: id_take_nth_drop[symmetric])
  from fold_section_step_heading[OF h, of "take i ls" "(Map.empty, None, [])"]
  obtain m where m: "fold section_step (take i ls @ [ls ! i]) (Map.empty, None, []) = (m, Some t, [])" ..
  have post: "\<forall>l\<in>set (drop (Suc i) ls). heading_text l \<noteq> Some t"
  proof
    fix l assume "l \<in> set (drop (Suc i) ls)"
    then obtain k where k: "k < length (drop (Suc i) ls)" "l = drop (Suc i) ls ! k"
      by (auto simp: in_set_conv_nth)
    then have "l = ls ! (Suc i + k)" and "Suc i + k < length ls" by simp_all
    with later show "heading_text l \<noteq> Some t" by simp
  qed
  have "sections_of_lines ls t = sections_from (m, Some t, []) (drop (Suc i) ls) t"
    unfolding sections_of_lines_from
    by (subst split, subst sections_from_append) (simp only: m)
  also have "\<dots> = Some (join_nl (takeWhile (\<lambda>l. heading_match l = None) (drop (Suc i) ls)))"
    using sections_from_no_heading[OF post, of m "Some t" "[]"] ne by simp
  finally show ?thesis .
qed

lemma sections_of_lines_absent:
  "\<forall>l\<in>set ls. heading_text l \<noteq> Some t \<Longrightarrow> sections_of_lines ls t = None"
  using sections_from_no_heading[of ls t Map.empty None "[]"]
  by (simp add: sections_of_lines_from)

lemma sections_from_empty_key: "m [] = None \<Longrightarrow> sections_from (m, h, cc) ls [] = None"
proof (induction ls arbitrary: m h cc)
  case Nil
  then show ?case by (simp add: sections_from_Nil store_section_apply)
next
  case (Cons l ls)
  have "store_section m h cc [] = None" using Cons.prems by (simp add: store_section_apply)
  with Cons show ?case by (simp add: sections_from_Cons split: option.splits)
qed

lemma sections_of_lines_empty_key: "sections_of_lines ls [] = None"
  by (simp add: sections_of_lines_from sections_from_empty_key)

lemma item_data_dates:
  "scheduled (item_data ctx n) =
     timestamp_date ''SCHEDULED:''
       (heading_content_of (ctx_sections ctx) (snd (heading_status n)) (node_heading n)) \<and>
   deadline (item_data ctx n) =
     timestamp_date ''DEADLINE:''
       (heading_content_of (ctx_sections ctx) (snd (heading_status n)) (node_heading n))"
  by (simp add: item_data_def parse_timestamps_in_content_def split: prod.splits)

text \<open>
  C10 (amended). The index is built by one scan from the top that gives every line that
  is no heading to the most recent heading line and is keyed by the trimmed text of the
  heading line (status token included). For a non-empty text \<open>t\<close> whose last heading
  line is line \<open>i\<close>, the index maps \<open>t\<close> to the lines that follow line \<open>i\<close> up to the next
  heading line; the empty text and a text that no heading line has are no keys. A node
  whose heading is \<open>t\<close> reads that body, and its dates come from it, when its clean
  title is \<open>t\<close> itself or is no key of the index; when the clean title (the heading
  without a leading status token) is a key, the node reads the body stored under the
  clean title instead.
\<close>

theorem content_sections_last_occurrence:
  assumes "i < length (split_nl content)"
    and "heading_text (split_nl content ! i) = Some t"
    and "t \<noteq> []"
    and "\<forall>j. i < j \<and> j < length (split_nl content) \<longrightarrow> heading_text (split_nl content ! j) \<noteq> Some t"
  shows "content_sections_of content t = Some (body_after (split_nl content) i) \<and>
         (node_heading n = t \<and> ctx_sections ctx = content_sections_of content \<and>
          (snd (heading_status n) = t \<or> content_sections_of content (snd (heading_status n)) = None)
          \<longrightarrow> heading_content_of (ctx_sections ctx) (snd (heading_status n)) (node_heading n)
                = body_after (split_nl content) i \<and>
              scheduled (item_data ctx n) =
                timestamp_date ''SCHEDULED:'' (body_after (split_nl content) i) \<and>
              deadline (item_data ctx n) =
                timestamp_date ''DEADLINE:'' (body_after (split_nl content) i)) \<and>
         (ctx_sections ctx = content_sections_of content \<and>
          content_sections_of content (snd (heading_status n)) = Some c
          \<longrightarrow> heading_content_of (ctx_sections ctx) (snd (heading_status n)) (node_heading n) = c) \<and>
         content_sections_of content [] = None \<and>
         ((\<forall>l\<in>set (split_nl content). heading_text l \<noteq> Some t') \<longrightarrow>
            content_sections_of content t' = None)"
proof -
  have idx: "content_sections_of content t = Some (body_after (split_nl content) i)"
    unfolding content_sections_of_def body_after_def
    using assms by (rule sections_of_lines_last)
  have look: "heading_content_of (ctx_sections ctx) (snd (heading_status n)) (node_heading n)
                = body_after (split_nl content) i"
    if "node_heading n = t" "ctx_sections ctx = content_sections_of content"
      "snd (heading_status n) = t \<or> content_sections_of content (snd (heading_status n)) = None"
    using that idx by (auto simp: heading_content_of_def)
  have emp: "content_sections_of content [] = None"
    by (simp add: content_sections_of_def sections_of_lines_empty_key)
  have absent: "content_sections_of content t' = None"
    if "\<forall>l\<in>set (split_nl content). heading_text l \<noteq> Some t'"
    unfolding content_sections_of_def using that by (rule sections_of_lines_absent)
  have clean: "heading_content_of (ctx_sections ctx) (snd (heading_status n)) (node_heading n) = c"
    if "ctx_sections ctx = content_sections_of content"
      "content_sections_of content (snd (heading_status n)) = Some c"
    using that by (simp add: heading_content_of_def)
  show ?thesis using idx look clean emp absent item_data_dates[of ctx n] by auto
qed

lemma twice_a_lines:
  "split_nl twice_a = [''* a'', ''SCHEDULED: <2024-01-01>'', ''* a'', ''SCHEDULED: <2024-01-02>'']"
  unfolding twice_a_def by code_simp

theorem content_sections_last_occurrence_witness:
  "content_sections_of twice_a ''a'' = Some ''SCHEDULED: <2024-01-02>'' \<and>
   scheduled (item_data (sample_ctx twice_a) (Node ''a'' None [] None []))
     = Some \<lparr>year = 2024, month = 1, day = 2\<rparr>"
proof -
  let ?n = "Node ''a'' None [] None []"
  have a1: "2 < length (split_nl twice_a)" unfolding twice_a_lines by simp
  have a2: "heading_text (split_nl twice_a ! 2) = Some ''a''" unfolding twice_a_lines by code_simp
  have a3: "''a'' \<noteq> []" by simp
  have h3: "heading_text ''SCHEDULED: <2024-01-02>'' \<noteq> Some ''a''" by code_simp
  have a4: "\<forall>j. 2 < j \<and> j < length (split_nl twice_a) \<longrightarrow> heading_text (split_nl twice_a ! j) \<noteq> Some ''a''"
  proof (intro allI impI)
    fix j assume "2 < j \<and> j < length (split_nl twice_a)"
    then have "j = 3" unfolding twice_a_lines by simp
    then show "heading_text (split_nl twice_a ! j) \<noteq> Some ''a''"
      unfolding twice_a_lines using h3 by simp
  qed
  have b: "body_after (split_nl twice_a) 2 = ''SCHEDULED: <2024-01-02>''"
    unfolding twice_a_lines by code_simp
  have hs: "snd (heading_status ?n) = ''a''" by code_simp
  have cs: "ctx_sections (sample_ctx twice_a) = content_sections_of twice_a"
    by (simp add: sample_ctx_def)
  have ts: "timestamp_date ''SCHEDULED:'' ''SCHEDULED: <2024-01-02>'' = Some \<lparr>year = 2024, month = 1, day = 2\<rparr>"
    by code_simp
  from content_sections_last_occurrence [OF a1 a2 a3 a4, of ?n "sample_ctx twice_a"]
  show ?thesis unfolding b using hs cs ts by simp
qed

text \<open>
  The claim as stated lets every node that bears the repeated text read the body of the
  last occurrence. With two headings \<open>NEXT a\<close> and a later heading \<open>a\<close>, a node
  \<open>NEXT a\<close> has the clean title \<open>a\<close> and reads the body of the heading \<open>a\<close>.
\<close>

theorem content_sections_clean_title_counterexample:
  "heading_text (split_nl twice_next_a ! 0) = Some ''NEXT a'' \<and>
   heading_text (split_nl twice_next_a ! 2) = Some ''NEXT a'' \<and>
   body_after (split_nl twice_next_a) 2 = ''SCHEDULED: <2024-01-02>'' \<and>
   content_sections_of twice_next_a ''NEXT a'' = Some ''SCHEDULED: <2024-01-02>'' \<and>
   heading_content_of (content_sections_of twice_next_a)
     (snd (heading_status (Node ''NEXT a'' None [] None []))) ''NEXT a'' = ''SCHEDULED: <2024-01-03>'' \<and>
   scheduled (item_data (sample_ctx twice_next_a) (Node ''NEXT a'' None [] None []))
     = Some \<lparr>year = 2024, month = 1, day = 3\<rparr>"
  unfolding twice_next_a_def sample_ctx_def by code_simp

lemma task_flagged_fields:
  "title (task_flagged it) = title it" "file_name (task_flagged it) = file_name it"
  "scheduled (task_flagged it) = scheduled it" "deadline (task_flagged it) = deadline it"
  "todo_keyword (task_flagged it) = todo_keyword it"
  by (simp_all add: task_flagged_def)

lemma add_schedule_rel:
  assumes "walk_rel flag sa sb"
  shows "walk_rel flag (add_schedule today it sa) (add_schedule today (task_flagged it) sb)"
proof -
  let ?id = "''schedule:'' @ file_name it @ '':'' @ title it"
  have np: "\<not> prefix ''todo:'' ?id" by (simp add: prefix_def)
  from assms have mem: "?id \<in> processed_items sb \<longleftrightarrow> ?id \<in> processed_items sa"
    using np by (auto simp: walk_rel_def)
  show ?thesis
    using assms mem np
    by (auto simp: add_schedule_def Let_def task_flagged_fields walk_rel_def agenda_rel_def)
qed

lemma add_deadline_rel:
  assumes "walk_rel flag sa sb"
  shows "walk_rel flag (add_deadline today it sa) (add_deadline today (task_flagged it) sb)"
proof -
  let ?id = "''deadline:'' @ file_name it @ '':'' @ title it"
  have np: "\<not> prefix ''todo:'' ?id" by (simp add: prefix_def)
  from assms have mem: "?id \<in> processed_items sb \<longleftrightarrow> ?id \<in> processed_items sa"
    using np by (auto simp: walk_rel_def)
  show ?thesis
    using assms mem np
    by (auto simp: add_deadline_def Let_def task_flagged_fields walk_rel_def agenda_rel_def)
qed

lemma add_todo_rel_task:
  assumes "walk_rel True sa sb" and "in_task_file it"
  shows "walk_rel True (add_todo kw it sa) (add_todo kw (task_flagged it) sb)"
  using assms
  by (auto simp: add_todo_def Let_def task_flagged_fields walk_rel_def agenda_rel_def)

lemma add_todo_rel_other:
  assumes "walk_rel False sa sb" and "\<not> in_task_file it"
  shows "walk_rel False (add_todo kw it sa) sb"
proof -
  let ?id = "''todo:'' @ file_name it @ '':'' @ kw @ '':'' @ title it"
  have p: "prefix ''todo:'' ?id" by (simp add: prefix_def)
  show ?thesis
    using assms p
    by (auto simp: add_todo_def Let_def walk_rel_def agenda_rel_def)
qed

lemma item_data_task_flagged:
  assumes "flag = has_task_filetag (ctx_file_name ctx)"
  shows "item_data (ctx\<lparr>ctx_is_task_file := flag\<rparr>) n = task_flagged (item_data ctx n)"
  using assms by (simp add: item_data_def task_flagged_def split: prod.splits)

lemma item_data_file_name: "file_name (item_data ctx n) = ctx_file_name ctx"
  by (simp add: item_data_def split: prod.splits)

lemma visit_rel:
  assumes rel: "walk_rel flag sa sb" and flag: "flag = has_task_filetag (ctx_file_name ctx)"
  shows "walk_rel flag (visit ctx n sa) (visit_task_only (ctx\<lparr>ctx_is_task_file := flag\<rparr>) n sb)"
proof (cases "node_heading n = []")
  case True
  with rel show ?thesis by (simp add: visit_def visit_task_only_def)
next
  case False
  let ?it = "item_data ctx n"
  let ?today = "ctx_today ctx"
  have it': "item_data (ctx\<lparr>ctx_is_task_file := flag\<rparr>) n = task_flagged ?it"
    using flag by (rule item_data_task_flagged)
  have inf: "in_task_file ?it \<longleftrightarrow> flag"
    using flag by (simp add: in_task_file_def item_data_file_name)
  let ?sa = "add_deadline ?today ?it (add_schedule ?today ?it sa)"
  let ?sb = "add_deadline ?today (task_flagged ?it) (add_schedule ?today (task_flagged ?it) sb)"
  have r2: "walk_rel flag ?sa ?sb"
    by (intro add_deadline_rel add_schedule_rel rel)
  have va: "visit ctx n sa =
      (if open_keyword (todo_keyword ?it) then add_todo (the (todo_keyword ?it)) ?it ?sa else ?sa)"
    using False by (simp add: visit_def Let_def)
  have vb: "visit_task_only (ctx\<lparr>ctx_is_task_file := flag\<rparr>) n sb =
      (if open_keyword (todo_keyword ?it) \<and> flag
       then add_todo (the (todo_keyword ?it)) (task_flagged ?it) ?sb else ?sb)"
    using False by (simp add: visit_task_only_def Let_def it' task_flagged_fields)
  show ?thesis
  proof (cases "open_keyword (todo_keyword ?it)")
    case False
    then show ?thesis unfolding va vb using r2 by simp
  next
    case True
    show ?thesis
    proof (cases flag)
      case True
      with r2 inf have "walk_rel True (add_todo (the (todo_keyword ?it)) ?it ?sa)
          (add_todo (the (todo_keyword ?it)) (task_flagged ?it) ?sb)"
        by (intro add_todo_rel_task) simp_all
      then show ?thesis unfolding va vb using True \<open>open_keyword (todo_keyword ?it)\<close> by simp
    next
      case False
      with r2 inf have "walk_rel False (add_todo (the (todo_keyword ?it)) ?it ?sa) ?sb"
        by (intro add_todo_rel_other) simp_all
      then show ?thesis unfolding va vb using False \<open>open_keyword (todo_keyword ?it)\<close> by simp
    qed
  qed
qed

lemma fold_rel:
  assumes "\<And>c sa sb. c \<in> set cs \<Longrightarrow> R sa sb \<Longrightarrow> R (f c sa) (g c sb)" and "R sa sb"
  shows "R (fold f cs sa) (fold g cs sb)"
  using assms by (induction cs arbitrary: sa sb) auto

lemma walk_nodes_rel:
  assumes flag: "flag = has_task_filetag (ctx_file_name ctx)"
  shows "walk_rel flag sa sb \<Longrightarrow>
     walk_rel flag (walk_nodes (visit ctx) n sa)
       (walk_nodes (visit_task_only (ctx\<lparr>ctx_is_task_file := flag\<rparr>)) n sb)"
proof (induction n arbitrary: sa sb)
  case (Node h t tg p ch)
  have v: "walk_rel flag (visit ctx (Node h t tg p ch) sa)
      (visit_task_only (ctx\<lparr>ctx_is_task_file := flag\<rparr>) (Node h t tg p ch) sb)"
    using Node.prems flag by (rule visit_rel)
  show ?case
    unfolding walk_nodes.simps
    by (rule fold_rel[where R = "walk_rel flag"]) (auto intro: Node.IH v)
qed

lemma add_file_rel:
  assumes "agenda_rel a b"
  shows "agenda_rel (add_file today f a) (add_file_task_only today f b)"
proof (cases "file_text f")
  case None
  with assms show ?thesis by (simp add: add_file_def add_file_task_only_def)
next
  case (Some content)
  show ?thesis
  proof (cases "root_children f")
    case None
    with assms Some show ?thesis by (simp add: add_file_def add_file_task_only_def)
  next
    case nodes: (Some top_nodes)
    show ?thesis
    proof (cases "document_title content (path_stem f)")
      case (Inl e)
      with assms Some nodes show ?thesis by (simp add: add_file_def add_file_task_only_def)
    next
      case (Inr doc_title)
      let ?flag = "has_task_filetag (path_name f)"
      let ?ctx = "\<lparr>ctx_file_name = path_name f, ctx_file_title = doc_title,
          ctx_is_task_file = (contains ''__task'' (path_name f) \<or> contains ''_task'' (path_name f)),
          ctx_today = today, ctx_sections = content_sections_of content\<rparr>"
      let ?sa = "\<lparr>processed_items = {}, agenda_acc = a\<rparr>"
      let ?sb = "\<lparr>processed_items = {}, agenda_acc = b\<rparr>"
      have fl: "?flag = has_task_filetag (ctx_file_name ?ctx)" by simp
      have r0: "walk_rel ?flag ?sa ?sb" using assms by (simp add: walk_rel_def)
      have "walk_rel ?flag (fold (walk_nodes (visit ?ctx)) top_nodes ?sa)
          (fold (walk_nodes (visit_task_only (?ctx\<lparr>ctx_is_task_file := ?flag\<rparr>))) top_nodes ?sb)"
      proof (rule fold_rel[where R = "walk_rel ?flag"])
        show "walk_rel ?flag ?sa ?sb" by (rule r0)
      next
        fix c sa sb assume "walk_rel ?flag sa sb"
        then show "walk_rel ?flag (walk_nodes (visit ?ctx) c sa)
            (walk_nodes (visit_task_only (?ctx\<lparr>ctx_is_task_file := ?flag\<rparr>)) c sb)"
          by (rule walk_nodes_rel[OF fl])
      qed
      then have "agenda_rel (agenda_acc (fold (walk_nodes (visit ?ctx)) top_nodes ?sa))
          (agenda_acc (fold (walk_nodes (visit_task_only (?ctx\<lparr>ctx_is_task_file := ?flag\<rparr>)))
             top_nodes ?sb))"
        by (simp add: walk_rel_def)
      then show ?thesis
        using Some nodes Inr by (simp add: add_file_def add_file_task_only_def)
    qed
  qed
qed

lemma parse_rel:
  "agenda_rel (parse_org_agenda_items fs today) (parse_org_agenda_items_task_only fs today)"
  unfolding parse_org_agenda_items_def parse_org_agenda_items_task_only_def
proof (rule fold_rel[where R = agenda_rel])
  show "agenda_rel empty_agenda empty_agenda"
    by (simp add: agenda_rel_def empty_agenda_def)
next
  fix c sa sb assume "agenda_rel sa sb"
  then show "agenda_rel (add_file today c sa) (add_file_task_only today c sb)"
    by (rule add_file_rel)
qed

text \<open>
  C4 (amended). For the same files and the same day, the task-only extractor's
  \<open>schedules_today\<close> and \<open>deadlines_today\<close> hold the items of the full extractor's, in
  the same order and equal in every attribute but \<open>is_task_file\<close>, which each extractor
  computes in its own way; its \<open>todos\<close> lists are the full extractor's restricted to the
  items of files that \<^const>\<open>has_task_filetag\<close> accepts, with the same exception.
\<close>

theorem task_only_variant:
  "schedules_today (parse_org_agenda_items_task_only fs today)
     = map task_flagged (schedules_today (parse_org_agenda_items fs today)) \<and>
   deadlines_today (parse_org_agenda_items_task_only fs today)
     = map task_flagged (deadlines_today (parse_org_agenda_items fs today)) \<and>
   (\<forall>k. todos (parse_org_agenda_items_task_only fs today) k
     = map task_flagged (filter in_task_file (todos (parse_org_agenda_items fs today) k)))"
  using parse_rel[of fs today] by (simp add: agenda_rel_def)

text \<open>
  The claim as stated has the same attributes on both sides. For a file named
  \<^verbatim>\<open>note_tasks.org\<close> the full extractor sets \<open>is_task_file\<close> (the name contains
  \<^verbatim>\<open>_task\<close>), the task-only extractor does not (the name has no \<^verbatim>\<open>__\<close>), so their
  \<open>schedules_today\<close> differ.
\<close>

theorem task_flag_counterexample:
  "map is_task_file (schedules_today (parse_org_agenda_items [sample_file] sample_day)) = [True] \<and>
   map is_task_file (schedules_today (parse_org_agenda_items_task_only [sample_file] sample_day))
     = [False] \<and>
   schedules_today (parse_org_agenda_items_task_only [sample_file] sample_day)
     \<noteq> schedules_today (parse_org_agenda_items [sample_file] sample_day)"
  by code_simp

end
